theory Spec2Isabelle
  imports Main "HOL-Library.Word" "HOL-Library.Stream"
begin

section \<open>The game state of \<^verbatim>\<open>Game.cpp\<close>\<close>

text \<open>
  \<^verbatim>\<open>Game\<close> owns seven meshes (\<^verbatim>\<open>wall_mesh\<close>, \<^verbatim>\<open>floor_mesh\<close>, ...) and two vectors of
  pointers to them, \<^verbatim>\<open>board_meshes\<close> and \<^verbatim>\<open>goal_meshes\<close>. The code only ever compares such
  a pointer with the address of one of the seven members or with \<^verbatim>\<open>nullptr\<close>, so a pointer
  is modelled as an optional name of a member: \<open>None\<close> is \<^verbatim>\<open>nullptr\<close>.
\<close>

datatype mesh =
  wall_mesh | floor_mesh | player_mesh | goop_mesh
  | checkpoint_mesh | checkpoint_collected_mesh | goal_mesh

type_synonym mesh_ptr = "mesh option"

text \<open>
  The members of \<^verbatim>\<open>Game\<close> that \<^verbatim>\<open>create_board\<close>, \<^verbatim>\<open>move_player\<close> and \<^verbatim>\<open>handle_event\<close>
  read or write, and the function-local static generator \<^verbatim>\<open>mt\<close> of \<^verbatim>\<open>create_board\<close>,
  which lives as long as the process and is therefore part of the state that is passed
  along. A \<^verbatim>\<open>std::mt19937\<close> is modelled by the sequence of the 32-bit values it will
  return: \<^verbatim>\<open>mt()\<close> returns the head and leaves the tail.

  Modelled from the spec: the declarations of the members are in \<^verbatim>\<open>Game.hpp\<close>, which is
  not among the sources. \<^verbatim>\<open>board_size\<close> and \<^verbatim>\<open>player\<close> are used as \<^verbatim>\<open>glm::uvec2\<close>
  throughout \<^verbatim>\<open>Game.cpp\<close> (pairs \<open>(x, y)\<close> of unsigned 32-bit numbers, here natural numbers
  with the wrap-around written where an expression can wrap); the checkpoint counter is
  "a non-negative integer" in the spec and an integer here, so that staying non-negative
  is a property of the operations and not of the type.
\<close>

record game =
  board_size :: "nat \<times> nat"
  board_meshes :: "mesh_ptr list"
  goal_meshes :: "mesh_ptr list"
  player :: "nat \<times> nat"
  checkpoints :: int
  won :: bool
  mt :: "32 word stream"

text \<open>
  Reading or writing a \<^verbatim>\<open>std::vector\<close> out of range, dividing by zero and a failed
  \<^verbatim>\<open>assert\<close> are errors of the model; a loop that does not end is the value \<open>None\<close>.
  So a computation that returns \<open>x\<close> is \<open>Some (Inr x)\<close>.
\<close>

datatype error = OutOfRange | DivideByZero | AssertionFailed

type_synonym 'a result = "(error + 'a) option"

definition ok :: "'a \<Rightarrow> 'a result" where
  "ok x = Some (Inr x)"

definition fail :: "error \<Rightarrow> 'a result" where
  "fail e = Some (Inl e)"

definition and_then :: "'a result \<Rightarrow> ('a \<Rightarrow> 'b result) \<Rightarrow> 'b result" where
  "and_then m f = (case m of None \<Rightarrow> None | Some (Inl e) \<Rightarrow> Some (Inl e) | Some (Inr x) \<Rightarrow> f x)"

text \<open>A \<^verbatim>\<open>for\<close> loop over the values \<open>is\<close> of its counter, the body acting on the state.\<close>

fun for_each :: "'i list \<Rightarrow> ('i \<Rightarrow> 'a \<Rightarrow> 'a result) \<Rightarrow> 'a \<Rightarrow> 'a result" where
  "for_each [] body a = ok a"
| "for_each (i # is) body a = and_then (body i a) (for_each is body)"

definition u32 :: "int \<Rightarrow> nat" where
  "u32 i = nat (i mod 2 ^ 32)"

text \<open>The index expression \<^verbatim>\<open>y*board_size.x+x\<close>, computed in \<^verbatim>\<open>uint32_t\<close>.\<close>

definition cell_index :: "game \<Rightarrow> nat \<times> nat \<Rightarrow> nat" where
  "cell_index s p = (snd p * fst (board_size s) + fst p) mod 2 ^ 32"

definition at_index :: "'a list \<Rightarrow> nat \<Rightarrow> 'a result" where
  "at_index v i = (if i < length v then ok (v ! i) else fail OutOfRange)"

definition set_index :: "'a list \<Rightarrow> nat \<Rightarrow> 'a \<Rightarrow> 'a list result" where
  "set_index v i x = (if i < length v then ok (v[i := x]) else fail OutOfRange)"


section \<open>\<^verbatim>\<open>Game::move_player\<close>\<close>

text \<open>
  The loop of \<^verbatim>\<open>move_player\<close>. \<^verbatim>\<open>player.x + dx\<close> adds an \<^verbatim>\<open>int32_t\<close> to a \<^verbatim>\<open>uint32_t\<close>:
  the sum is taken modulo \<open>2^32\<close>, which is how a step of \<open>-1\<close> works.
\<close>

definition step_player :: "game \<Rightarrow> int \<Rightarrow> int \<Rightarrow> nat \<times> nat" where
  "step_player s dx dy = (u32 (int (fst (player s)) + dx), u32 (int (snd (player s)) + dy))"

partial_function (option) move_loop :: "game \<Rightarrow> int \<Rightarrow> int \<Rightarrow> game result" where
  "move_loop s dx dy =
    (case at_index (board_meshes s) (cell_index s (step_player s dx dy)) of
       None \<Rightarrow> None
     | Some (Inl e) \<Rightarrow> Some (Inl e)
     | Some (Inr m) \<Rightarrow>
        if m \<noteq> Some wall_mesh then
          (let s' = s\<lparr>player := step_player s dx dy\<rparr> in
           case at_index (goal_meshes s') (cell_index s' (player s')) of
             None \<Rightarrow> None
           | Some (Inl e) \<Rightarrow> Some (Inl e)
           | Some (Inr g) \<Rightarrow> if g = Some goop_mesh then Some (Inr s') else move_loop s' dx dy)
        else Some (Inr s))"

text \<open>\<^verbatim>\<open>//did the player gather a checkpoint?\<close>\<close>

definition gather_checkpoint :: "game \<Rightarrow> game result" where
  "gather_checkpoint s =
    and_then (at_index (goal_meshes s) (cell_index s (player s))) (\<lambda>g.
      if g = Some checkpoint_mesh then
        and_then (set_index (goal_meshes s) (cell_index s (player s)) (Some checkpoint_collected_mesh))
          (\<lambda>v. ok (s\<lparr>goal_meshes := v, checkpoints := checkpoints s + 1\<rparr>))
      else ok s)"

definition update_won :: "game \<Rightarrow> game result" where
  "update_won s =
    and_then (at_index (goal_meshes s) (cell_index s (player s))) (\<lambda>g.
      ok (s\<lparr>won := (g = Some goal_mesh)\<rparr>))"

definition move_player :: "game \<Rightarrow> int \<Rightarrow> int \<Rightarrow> game result" where
  "move_player s dx dy =
    (if \<not> (fst (player s) \<ge> 1 \<and> u32 (int (fst (player s)) + 1) < fst (board_size s)) then
       fail AssertionFailed
     else if \<not> (snd (player s) \<ge> 1 \<and> u32 (int (snd (player s)) + 1) < snd (board_size s)) then
       fail AssertionFailed
     else
       and_then (move_loop s dx dy) (\<lambda>s1.
       and_then (gather_checkpoint s1) update_won))"


section \<open>\<^verbatim>\<open>Game::create_board\<close>\<close>

text \<open>
  \<^verbatim>\<open>//remove everything:\<close> both vectors get \<^verbatim>\<open>board_size.x * board_size.y\<close> entries (a
  \<^verbatim>\<open>uint32_t\<close> product), and the two nested loops lay the floor.
\<close>

definition board_cells :: "game \<Rightarrow> nat" where
  "board_cells s = (fst (board_size s) * snd (board_size s)) mod 2 ^ 32"

definition remove_everything :: "game \<Rightarrow> game result" where
  "remove_everything s =
    and_then
      (for_each [1 ..< fst (board_size s) - 1] (\<lambda>x.
         for_each [1 ..< snd (board_size s) - 1] (\<lambda>y b.
           set_index b (cell_index s (x, y)) (Some floor_mesh)))
       (replicate (board_cells s) (Some wall_mesh)))
      (\<lambda>b. ok (s\<lparr>board_meshes := b, goal_meshes := replicate (board_cells s) None\<rparr>))"

text \<open>
  One call of \<^verbatim>\<open>mt()\<close>: the value returned and the state with the generator advanced.
\<close>

definition draw :: "game \<Rightarrow> nat \<times> game" where
  "draw s = (unat (shd (mt s)), s\<lparr>mt := stl (mt s)\<rparr>)"

text \<open>
  \<^verbatim>\<open>mt() % m\<close>, where \<open>m\<close> is a \<^verbatim>\<open>uint32_t\<close> value.
\<close>

definition draw_mod :: "nat \<Rightarrow> game \<Rightarrow> (nat \<times> game) result" where
  "draw_mod m s = (if m = 0 then fail DivideByZero else ok (fst (draw s) mod m, snd (draw s)))"

text \<open>
  The lambda \<^verbatim>\<open>random_board_position\<close>. C++ leaves the order of the two calls of \<^verbatim>\<open>mt()\<close>
  open; the model takes the \<open>x\<close> coordinate first. \<^verbatim>\<open>board_size.x-2\<close> is a \<^verbatim>\<open>uint32_t\<close>
  difference.
\<close>

definition random_board_position :: "game \<Rightarrow> ((nat \<times> nat) \<times> game) result" where
  "random_board_position s =
    and_then (draw_mod (u32 (int (fst (board_size s)) - 2)) s) (\<lambda>(x, s1).
    and_then (draw_mod (u32 (int (snd (board_size s)) - 2)) s1) (\<lambda>(y, s2).
      ok ((u32 (int x + 1), u32 (int y + 1)), s2)))"

text \<open>\<^verbatim>\<open>//place some random walls:\<close>\<close>

definition place_wall :: "game \<Rightarrow> game result" where
  "place_wall s =
    and_then (random_board_position s) (\<lambda>(pos, s1).
      if pos = player s1 then ok s1
      else and_then (set_index (board_meshes s1) (cell_index s1 pos) (Some wall_mesh))
             (\<lambda>b. ok (s1\<lparr>board_meshes := b\<rparr>)))"

definition place_walls :: "game \<Rightarrow> game result" where
  "place_walls s =
    and_then (draw_mod 8 s) (\<lambda>(r, s1).
      for_each [0 ..< r + 2] (\<lambda>w. place_wall) s1)"

text \<open>\<^verbatim>\<open>//place some random goops:\<close>\<close>

definition place_goop :: "game \<Rightarrow> game result" where
  "place_goop s =
    and_then (random_board_position s) (\<lambda>(pos, s1).
    and_then (at_index (board_meshes s1) (cell_index s1 pos)) (\<lambda>m.
      if m \<noteq> Some wall_mesh then
        and_then (set_index (goal_meshes s1) (cell_index s1 pos) (Some goop_mesh))
          (\<lambda>v. ok (s1\<lparr>goal_meshes := v\<rparr>))
      else ok s1))"

definition place_goops :: "game \<Rightarrow> game result" where
  "place_goops s =
    and_then (draw_mod 4 s) (\<lambda>(goops, s1).
      for_each [0 ..< goops] (\<lambda>g. place_goop) s1)"

text \<open>
  Arithmetic of \<^verbatim>\<open>float\<close>. Every \<^verbatim>\<open>float\<close> that \<^verbatim>\<open>create_board\<close> forms holds a whole number
  (a coordinate, a step, the width of the board, and sums and products of these), so a
  \<^verbatim>\<open>float\<close> is modelled by the integer it holds, and an operation by its exact result
  rounded as single precision rounds it: to the nearest number whose significand has 24
  bits, a tie to the one with the even significand. The numbers stay below \<open>2^65\<close>, far
  from the largest \<^verbatim>\<open>float\<close>. \<open>bit_length n\<close> is the number of binary digits of \<open>n\<close>.
\<close>

fun bit_length :: "nat \<Rightarrow> nat" where
  "bit_length n = (if n = 0 then 0 else Suc (bit_length (n div 2)))"

definition f32 :: "int \<Rightarrow> int" where
  "f32 i =
    (let q = 2 ^ (bit_length (nat \<bar>i\<bar>) - 24); m = i div q; r = i mod q in
     if 2 * r < q then m * q
     else if q < 2 * r then (m + 1) * q
     else if even m then m * q
     else (m + 1) * q)"

text \<open>
  \<^verbatim>\<open>//run some random walks to check where player is likely to end up\<close>. The walker's
  position \<^verbatim>\<open>at\<close> and the step \<^verbatim>\<open>d\<close> are \<^verbatim>\<open>glm::vec2\<close>, pairs of floats: \<open>to_vec2\<close> is
  the conversion in \<^verbatim>\<open>glm::vec2 at = prev_goal\<close>, \<open>float_step\<close> the sum \<^verbatim>\<open>at + d\<close>, and
  \<open>float_index\<close> the expression \<^verbatim>\<open>at.y*board_size.x+at.x\<close>, in which \<^verbatim>\<open>board_size.x\<close> is
  converted to \<^verbatim>\<open>float\<close> and the product and the sum are rounded. The index of the test of
  the inner loop, \<^verbatim>\<open>(at.y+d.y)*board_size.x+(at.x+d.x)\<close>, is \<open>float_index\<close> of \<open>float_step\<close>.
  A \<^verbatim>\<open>float\<close> used as the index of a vector is converted to \<^verbatim>\<open>size_t\<close>; an index that is
  negative or beyond the vector is an error.
\<close>

definition directions :: "(int \<times> int) list" where
  "directions = [(-1, 0), (1, 0), (0, -1), (0, 1)]"

definition to_vec2 :: "nat \<times> nat \<Rightarrow> int \<times> int" where
  "to_vec2 p = (f32 (int (fst p)), f32 (int (snd p)))"

definition float_step :: "int \<times> int \<Rightarrow> int \<times> int \<Rightarrow> int \<times> int" where
  "float_step at d = (f32 (fst at + fst d), f32 (snd at + snd d))"

definition float_index :: "game \<Rightarrow> int \<times> int \<Rightarrow> int" where
  "float_index s at = f32 (f32 (snd at * f32 (int (fst (board_size s)))) + fst at)"

definition at_float_index :: "'a list \<Rightarrow> int \<Rightarrow> 'a result" where
  "at_float_index v i = (if 0 \<le> i \<and> nat i < length v then ok (v ! nat i) else fail OutOfRange)"

partial_function (option) walk_slide :: "game \<Rightarrow> int \<times> int \<Rightarrow> int \<times> int \<Rightarrow> (int \<times> int) result" where
  "walk_slide s d at =
    (case at_float_index (board_meshes s) (float_index s (float_step at d)) of
       None \<Rightarrow> None
     | Some (Inl e) \<Rightarrow> Some (Inl e)
     | Some (Inr m) \<Rightarrow>
        if m \<noteq> Some wall_mesh then
          (case at_float_index (goal_meshes s) (float_index s (float_step at d)) of
             None \<Rightarrow> None
           | Some (Inl e) \<Rightarrow> Some (Inl e)
           | Some (Inr g) \<Rightarrow>
              if g = Some goop_mesh then Some (Inr (float_step at d))
              else walk_slide s d (float_step at d))
        else Some (Inr at))"

text \<open>One step of a walk: the state is the game (for \<^verbatim>\<open>mt\<close>), \<^verbatim>\<open>at\<close> and \<^verbatim>\<open>board_counts\<close>.\<close>

definition walk_step :: "game \<times> (int \<times> int) \<times> nat list \<Rightarrow> (game \<times> (int \<times> int) \<times> nat list) result" where
  "walk_step = (\<lambda>(s, at, board_counts).
    and_then (draw_mod 4 s) (\<lambda>(r, s1).
    and_then (walk_slide s1 (directions ! r) at) (\<lambda>at'.
    and_then (at_float_index board_counts (float_index s1 at')) (\<lambda>c.
      ok (s1, at', board_counts[nat (float_index s1 at') := c + 1])))))"

definition random_walk :: "nat \<times> nat \<Rightarrow> game \<times> nat list \<Rightarrow> (game \<times> nat list) result" where
  "random_walk prev_goal = (\<lambda>(s, board_counts).
    and_then
      (for_each [0 ..< 20] (\<lambda>step. walk_step) (s, to_vec2 prev_goal, board_counts))
      (\<lambda>(s1, at, board_counts1). ok (s1, board_counts1)))"

definition random_walks :: "nat \<times> nat \<Rightarrow> game \<Rightarrow> (game \<times> nat list) result" where
  "random_walks prev_goal s =
    for_each [0 ..< 100] (\<lambda>iter. random_walk prev_goal) (s, replicate (board_cells s) 0)"

text \<open>\<^verbatim>\<open>//make a list of possible checkpoint cells based on likelihoods:\<close>\<close>

definition possible_cell :: "game \<Rightarrow> nat list \<Rightarrow> nat \<Rightarrow> nat \<Rightarrow> (nat \<times> nat) list \<Rightarrow> (nat \<times> nat) list result" where
  "possible_cell s board_counts y x possible_cells =
    (if x = fst (player s) \<and> y = snd (player s) then ok possible_cells
     else
       and_then (at_index (goal_meshes s) (cell_index s (x, y))) (\<lambda>g.
         if g \<noteq> None then ok possible_cells
         else
           and_then (at_index board_counts (cell_index s (x, y))) (\<lambda>c.
             if c > 0 then ok (possible_cells @ [(x, y)]) else ok possible_cells)))"

definition find_possible_cells :: "game \<Rightarrow> nat list \<Rightarrow> (nat \<times> nat) list result" where
  "find_possible_cells s board_counts =
    for_each [0 ..< snd (board_size s)] (\<lambda>y.
      for_each [0 ..< fst (board_size s)] (\<lambda>x. possible_cell s board_counts y x)) []"

text \<open>
  \<^verbatim>\<open>//now sort list based on counts (smaller counts == harder):\<close> the key of a cell is its
  entry of \<^verbatim>\<open>board_counts\<close>, which was read (in range) when the cell was listed.
  \<^verbatim>\<open>std::stable_sort\<close> keeps cells of equal key in their order, as \<open>sort_key\<close> does.
\<close>

definition count_at :: "game \<Rightarrow> nat list \<Rightarrow> nat \<times> nat \<Rightarrow> nat" where
  "count_at s board_counts c = board_counts ! cell_index s c"

text \<open>\<^verbatim>\<open>//extend limit to all cells with the same count:\<close> the \<^verbatim>\<open>while\<close> loop of line 483.\<close>

function extend_limit :: "game \<Rightarrow> nat list \<Rightarrow> (nat \<times> nat) list \<Rightarrow> nat \<Rightarrow> nat" where
  "extend_limit s board_counts possible_cells limit =
    (if limit + 1 < length possible_cells
        \<and> count_at s board_counts (possible_cells ! limit)
          = count_at s board_counts (possible_cells ! (limit + 1))
     then extend_limit s board_counts possible_cells (limit + 1)
     else limit)"
  by pat_completeness auto
termination
  by (relation "measure (\<lambda>(s, board_counts, possible_cells, limit). length possible_cells - limit)") auto

text \<open>
  \<^verbatim>\<open>//pick one for the goal:\<close> the sort, the limit and the draw among the first \<open>limit\<close>
  cells.
\<close>

definition pick_goal :: "game \<Rightarrow> nat list \<Rightarrow> (nat \<times> nat) list \<Rightarrow> ((nat \<times> nat) \<times> game) result" where
  "pick_goal s board_counts possible_cells =
    (let sorted_cells = sort_key (count_at s board_counts) possible_cells;
         limit = extend_limit s board_counts sorted_cells (max 1 (length sorted_cells div 4))
     in
       and_then (draw_mod limit s) (\<lambda>(r, s1).
       and_then (at_index sorted_cells r) (\<lambda>g. ok (g, s1))))"

definition place_checkpoint :: "nat \<times> nat \<Rightarrow> game \<Rightarrow> game result" where
  "place_checkpoint g s =
    and_then (at_index (goal_meshes s) (cell_index s g)) (\<lambda>m.
      if m \<noteq> None then fail AssertionFailed
      else
        and_then (set_index (goal_meshes s) (cell_index s g) (Some checkpoint_mesh)) (\<lambda>v.
          ok (s\<lparr>goal_meshes := v\<rparr>)))"

text \<open>
  One turn of the loop \<^verbatim>\<open>while (goals < 2)\<close>: \<open>None\<close> for the \<^verbatim>\<open>break\<close>, the chosen cell
  \<^verbatim>\<open>g\<close> otherwise.
\<close>

definition place_goal :: "nat \<times> nat \<Rightarrow> game \<Rightarrow> ((nat \<times> nat) option \<times> game) result" where
  "place_goal prev_goal s =
    and_then (random_walks prev_goal s) (\<lambda>(s1, board_counts).
    and_then (find_possible_cells s1 board_counts) (\<lambda>possible_cells.
      if possible_cells = [] then ok (None, s1)
      else
        and_then (pick_goal s1 board_counts possible_cells) (\<lambda>(g, s2).
        and_then (place_checkpoint g s2) (\<lambda>s3. ok (Some g, s3)))))"

function place_goals :: "nat \<Rightarrow> nat \<times> nat \<Rightarrow> game \<Rightarrow> (nat \<times> (nat \<times> nat) \<times> game) result" where
  "place_goals goals prev_goal s =
    (if goals < 2 then
       and_then (place_goal prev_goal s) (\<lambda>(placed, s1).
         case placed of
           None \<Rightarrow> ok (goals, prev_goal, s1)
         | Some g \<Rightarrow> place_goals (goals + 1) g s1)
     else ok (goals, prev_goal, s))"
  by pat_completeness auto
termination
  by (relation "measure (\<lambda>(goals, prev_goal, s). 2 - goals)") auto

text \<open>
  \<^verbatim>\<open>create_board\<close> up to the test \<^verbatim>\<open>if (goals == 0)\<close>, and the whole of it: the call of
  itself when no goal could be placed, the last goal turned into the main goal otherwise.
\<close>

definition generate :: "game \<Rightarrow> (nat \<times> (nat \<times> nat) \<times> game) result" where
  "generate s =
    and_then (remove_everything s) (\<lambda>s1.
    and_then (place_walls s1) (\<lambda>s2.
    and_then (place_goops s2) (\<lambda>s3.
      place_goals 0 (player s3) s3)))"

definition main_goal :: "nat \<times> nat \<Rightarrow> game \<Rightarrow> game result" where
  "main_goal prev_goal s =
    and_then (set_index (goal_meshes s) (cell_index s prev_goal) (Some goal_mesh))
      (\<lambda>v. ok (s\<lparr>goal_meshes := v\<rparr>))"

partial_function (option) create_board :: "game \<Rightarrow> game result" where
  "create_board s =
    (case generate s of
       None \<Rightarrow> None
     | Some (Inl e) \<Rightarrow> Some (Inl e)
     | Some (Inr (goals, prev_goal, s1)) \<Rightarrow>
        if goals = 0 then create_board s1 else main_goal prev_goal s1)"


section \<open>\<^verbatim>\<open>Game::handle_event\<close>\<close>

text \<open>
  Of an \<^verbatim>\<open>SDL_Event\<close> the function reads whether its type is \<^verbatim>\<open>SDL_KEYDOWN\<close>, the repeat
  count of the key and its scancode.
\<close>

datatype scancode =
  SDL_SCANCODE_LEFT | SDL_SCANCODE_RIGHT | SDL_SCANCODE_UP | SDL_SCANCODE_DOWN
  | SDL_SCANCODE_BACKSPACE | SDL_SCANCODE_SPACE | SDL_SCANCODE_OTHER

record SDL_Event =
  is_keydown :: bool
  key_repeat :: nat
  key_scancode :: scancode

definition handle_event :: "game \<Rightarrow> SDL_Event \<Rightarrow> (bool \<times> game) result" where
  "handle_event s evt =
    (if is_keydown evt \<and> key_repeat evt \<noteq> 0 then ok (False, s)
     else if is_keydown evt \<and> key_repeat evt = 0 then
       (if key_scancode evt = SDL_SCANCODE_LEFT then
          and_then (move_player s (- 1) 0) (\<lambda>s1. ok (True, s1))
        else if key_scancode evt = SDL_SCANCODE_RIGHT then
          and_then (move_player s 1 0) (\<lambda>s1. ok (True, s1))
        else if key_scancode evt = SDL_SCANCODE_UP then
          and_then (move_player s 0 1) (\<lambda>s1. ok (True, s1))
        else if key_scancode evt = SDL_SCANCODE_DOWN then
          and_then (move_player s 0 (- 1)) (\<lambda>s1. ok (True, s1))
        else if key_scancode evt = SDL_SCANCODE_BACKSPACE then
          and_then
            (create_board (if checkpoints s > 0 then s\<lparr>checkpoints := checkpoints s - 1\<rparr> else s))
            (\<lambda>s1. ok (True, s1))
        else if key_scancode evt = SDL_SCANCODE_SPACE then
          (if won s then and_then (create_board s) (\<lambda>s1. ok (True, s1)) else ok (True, s))
        else ok (False, s))
     else ok (False, s))"


section \<open>Predicates and example states for the properties\<close>

declare extend_limit.simps [simp del] place_goals.simps [simp del]

text \<open>A cell of the board: both coordinates within \<^verbatim>\<open>board_size\<close>.\<close>

definition in_board :: "game \<Rightarrow> nat \<times> nat \<Rightarrow> bool" where
  "in_board s p \<longleftrightarrow> fst p < fst (board_size s) \<and> snd p < snd (board_size s)"

text \<open>The perimeter: the first and the last column and row.\<close>

definition on_perimeter :: "game \<Rightarrow> nat \<times> nat \<Rightarrow> bool" where
  "on_perimeter s p \<longleftrightarrow>
     fst p = 0 \<or> fst p = fst (board_size s) - 1 \<or> snd p = 0 \<or> snd p = snd (board_size s) - 1"

text \<open>The cell kinds of the spec that the claims speak of: a cell is a wall when its entry of
  \<^verbatim>\<open>board_meshes\<close> is the wall mesh, and sticky when its entry of \<^verbatim>\<open>goal_meshes\<close> is the goop mesh.\<close>

definition is_wall :: "game \<Rightarrow> nat \<times> nat \<Rightarrow> bool" where
  "is_wall s p \<longleftrightarrow> board_meshes s ! cell_index s p = Some wall_mesh"

definition is_sticky :: "game \<Rightarrow> nat \<times> nat \<Rightarrow> bool" where
  "is_sticky s p \<longleftrightarrow> goal_meshes s ! cell_index s p = Some goop_mesh"

text \<open>The border invariant of the spec.\<close>

definition perimeter_walls :: "game \<Rightarrow> bool" where
  "perimeter_walls s \<longleftrightarrow> (\<forall>p. in_board s p \<and> on_perimeter s p \<longrightarrow> is_wall s p)"

text \<open>Strictly inside the perimeter, as the two assertions of \<^verbatim>\<open>move_player\<close> say it.\<close>

definition inside :: "game \<Rightarrow> nat \<times> nat \<Rightarrow> bool" where
  "inside s p \<longleftrightarrow> 1 \<le> fst p \<and> fst p + 1 < fst (board_size s) \<and> 1 \<le> snd p \<and> snd p + 1 < snd (board_size s)"

text \<open>The board size does not wrap in \<^verbatim>\<open>uint32_t\<close>, and both vectors have one entry per cell.\<close>

definition sized :: "game \<Rightarrow> bool" where
  "sized s \<longleftrightarrow> fst (board_size s) * snd (board_size s) < 2 ^ 32
     \<and> length (board_meshes s) = fst (board_size s) * snd (board_size s)
     \<and> length (goal_meshes s) = fst (board_size s) * snd (board_size s)"

text \<open>The four steps that \<^verbatim>\<open>handle_event\<close> passes to \<^verbatim>\<open>move_player\<close>.\<close>

definition unit_step :: "int \<Rightarrow> int \<Rightarrow> bool" where
  "unit_step dx dy \<longleftrightarrow> (dx, dy) \<in> {(- 1, 0), (1, 0), (0, 1), (0, - 1)}"

text \<open>The cell \<open>j\<close> steps ahead of the token.\<close>

definition cell_ahead :: "game \<Rightarrow> int \<Rightarrow> int \<Rightarrow> nat \<Rightarrow> nat \<times> nat" where
  "cell_ahead s dx dy j =
     (nat (int (fst (player s)) + int j * dx), nat (int (snd (player s)) + int j * dy))"

text \<open>The number of steps from the token to the perimeter, the measure of the slide.\<close>

definition dist :: "game \<Rightarrow> int \<Rightarrow> int \<Rightarrow> nat" where
  "dist s dx dy =
    (if dx = 1 then fst (board_size s) - 1 - fst (player s)
     else if dx = - 1 then fst (player s)
     else if dy = 1 then snd (board_size s) - 1 - snd (player s)
     else snd (player s))"

text \<open>What it means that a slide of \<open>k\<close> steps is the slide of the code: it enters no wall and
  leaves no goop, and it ends before a wall or on goop.\<close>

definition slide_stops :: "game \<Rightarrow> int \<Rightarrow> int \<Rightarrow> nat \<Rightarrow> bool" where
  "slide_stops s dx dy k \<longleftrightarrow>
     (\<forall>j. 1 \<le> j \<and> j \<le> k \<longrightarrow> inside s (cell_ahead s dx dy j) \<and> \<not> is_wall s (cell_ahead s dx dy j))
     \<and> (\<forall>j. 1 \<le> j \<and> j < k \<longrightarrow> \<not> is_sticky s (cell_ahead s dx dy j))
     \<and> in_board s (cell_ahead s dx dy (k + 1))
     \<and> (is_wall s (cell_ahead s dx dy (k + 1)) \<or> (1 \<le> k \<and> is_sticky s (cell_ahead s dx dy k)))"

text \<open>Two states that differ in the generator at most.\<close>

definition mt_only :: "game \<Rightarrow> game \<Rightarrow> bool" where
  "mt_only s s' \<longleftrightarrow> s' = s\<lparr>mt := mt s'\<rparr>"

text \<open>Two states with the same board size, token, counter and win flag.\<close>

definition same_frame :: "game \<Rightarrow> game \<Rightarrow> bool" where
  "same_frame s s' \<longleftrightarrow> board_size s' = board_size s \<and> player s' = player s
     \<and> checkpoints s' = checkpoints s \<and> won s' = won s"

declare bit_length.simps [simp del]

text \<open>The product \<^verbatim>\<open>board_size.x * board_size.y\<close> does not wrap.\<close>

definition small_board :: "game \<Rightarrow> bool" where
  "small_board s \<longleftrightarrow> fst (board_size s) * snd (board_size s) < 2 ^ 32"

text \<open>The board has fewer than \<open>2^24\<close> cells: every index of a cell is a \<^verbatim>\<open>float\<close>.\<close>

definition exact_board :: "game \<Rightarrow> bool" where
  "exact_board s \<longleftrightarrow> fst (board_size s) * snd (board_size s) < 2 ^ 24"

text \<open>Every wall of the first state is a wall of the second.\<close>

definition walls_kept :: "game \<Rightarrow> game \<Rightarrow> bool" where
  "walls_kept s s' \<longleftrightarrow> length (board_meshes s') = length (board_meshes s)
     \<and> (\<forall>i. board_meshes s ! i = Some wall_mesh \<longrightarrow> board_meshes s' ! i = Some wall_mesh)"

text \<open>The overlay holds nothing but goop.\<close>

definition only_goop :: "game \<Rightarrow> bool" where
  "only_goop s \<longleftrightarrow> set (goal_meshes s) \<subseteq> {None, Some goop_mesh}"

text \<open>What the loop \<^verbatim>\<open>while (goals < 2)\<close> does to its three variables: the pair before, the pair
  after.\<close>

definition placed_goals :: "nat \<times> (nat \<times> nat) \<times> game \<Rightarrow> nat \<times> (nat \<times> nat) \<times> game \<Rightarrow> bool" where
  "placed_goals = (\<lambda>(goals, prev_goal, s) (goals', prev_goal', s').
     same_frame s s' \<and> board_meshes s' = board_meshes s
     \<and> length (goal_meshes s') = length (goal_meshes s)
     \<and> goals \<le> goals' \<and> goals' \<le> max goals 2
     \<and> count_list (goal_meshes s') (Some checkpoint_mesh)
         = count_list (goal_meshes s) (Some checkpoint_mesh) + (goals' - goals)
     \<and> (\<forall>m. m \<noteq> Some checkpoint_mesh \<and> m \<noteq> None \<longrightarrow>
           count_list (goal_meshes s') m = count_list (goal_meshes s) m)
     \<and> (if goals' = goals then prev_goal' = prev_goal \<and> goal_meshes s' = goal_meshes s
         else cell_index s prev_goal' < length (goal_meshes s)
           \<and> goal_meshes s' ! cell_index s prev_goal' = Some checkpoint_mesh))"

text \<open>Example states: the board of 5 by 5 cells without inner walls, and a game on 5 by 5
  cells whose generator returns the same value \<open>r\<close> for ever.\<close>

definition open_board :: "mesh_ptr list" where
  "open_board =
    [Some wall_mesh, Some wall_mesh, Some wall_mesh, Some wall_mesh, Some wall_mesh,
     Some wall_mesh, Some floor_mesh, Some floor_mesh, Some floor_mesh, Some wall_mesh,
     Some wall_mesh, Some floor_mesh, Some floor_mesh, Some floor_mesh, Some wall_mesh,
     Some wall_mesh, Some floor_mesh, Some floor_mesh, Some floor_mesh, Some wall_mesh,
     Some wall_mesh, Some wall_mesh, Some wall_mesh, Some wall_mesh, Some wall_mesh]"

definition game5 :: "32 word \<Rightarrow> nat \<times> nat \<Rightarrow> mesh_ptr list \<Rightarrow> mesh_ptr list \<Rightarrow> int \<Rightarrow> bool \<Rightarrow> game" where
  "game5 r p b g c w =
    \<lparr>board_size = (5, 5), board_meshes = b, goal_meshes = g, player = p,
     checkpoints = c, won = w, mt = sconst r\<rparr>"

text \<open>The events that move the token, and the event that gives up.\<close>

definition is_move_key :: "SDL_Event \<Rightarrow> bool" where
  "is_move_key evt \<longleftrightarrow> is_keydown evt \<and> key_repeat evt = 0
     \<and> key_scancode evt \<in> {SDL_SCANCODE_LEFT, SDL_SCANCODE_RIGHT, SDL_SCANCODE_UP, SDL_SCANCODE_DOWN}"

definition is_give_up :: "SDL_Event \<Rightarrow> bool" where
  "is_give_up evt \<longleftrightarrow> is_keydown evt \<and> key_repeat evt = 0
     \<and> key_scancode evt = SDL_SCANCODE_BACKSPACE"

text \<open>The three tests of the loop that lists the possible cells.\<close>

definition candidate :: "game \<Rightarrow> nat list \<Rightarrow> nat \<times> nat \<Rightarrow> bool" where
  "candidate s board_counts p \<longleftrightarrow> p \<noteq> player s
     \<and> goal_meshes s ! cell_index s p = None \<and> 0 < board_counts ! cell_index s p"

text \<open>A cell where a walk from \<open>start\<close> can rest: inside the perimeter, and either the start or
  not a wall.\<close>

definition visited :: "game \<Rightarrow> nat \<times> nat \<Rightarrow> nat \<times> nat \<Rightarrow> bool" where
  "visited s start p \<longleftrightarrow> inside s p \<and> (p = start \<or> \<not> is_wall s p)"

text \<open>The measure of the slide of a walk, and the cell it looks at next.\<close>

definition walk_dist :: "game \<Rightarrow> int \<times> int \<Rightarrow> nat \<times> nat \<Rightarrow> nat" where
  "walk_dist s d q =
    (if d = (1, 0) then fst (board_size s) - 1 - fst q
     else if d = (- 1, 0) then fst q
     else if d = (0, 1) then snd (board_size s) - 1 - snd q
     else snd q)"

definition next_cell :: "nat \<times> nat \<Rightarrow> int \<times> int \<Rightarrow> nat \<times> nat" where
  "next_cell q d = (nat (int (fst q) + fst d), nat (int (snd q) + snd d))"

text \<open>The invariants of the two loops of the walks: the walker and every counted cell are
  visited cells.\<close>

definition walk_inv :: "game \<Rightarrow> nat \<times> nat \<Rightarrow> game \<times> (int \<times> int) \<times> nat list \<Rightarrow> bool" where
  "walk_inv s start = (\<lambda>(s', at, c).
     mt_only s s'
     \<and> (\<exists>p. at = (int (fst p), int (snd p)) \<and> visited s start p)
     \<and> length c = board_cells s
     \<and> (\<forall>i < length c. 0 < c ! i \<longrightarrow> (\<exists>p. visited s start p \<and> cell_index s p = i)))"

definition counts_inv :: "game \<Rightarrow> nat \<times> nat \<Rightarrow> game \<times> nat list \<Rightarrow> bool" where
  "counts_inv s start = (\<lambda>(s', c).
     mt_only s s' \<and> length c = board_cells s
     \<and> (\<forall>i < length c. 0 < c ! i \<longrightarrow> (\<exists>p. visited s start p \<and> cell_index s p = i)))"

text \<open>
  The state in which the \<open>n\<close>-th call of \<^verbatim>\<open>create_board\<close> from within itself starts: each
  of the calls before it has come to the test \<^verbatim>\<open>goals == 0\<close> and found it true.
\<close>

fun retry :: "nat \<Rightarrow> game \<Rightarrow> game option" where
  "retry 0 s = Some s"
| "retry (Suc n) s =
    (case generate s of
       Some (Inr (goals, prev_goal, s1)) \<Rightarrow> if goals = 0 then retry n s1 else None
     | _ \<Rightarrow> None)"

text \<open>
  A game on 5 by 5 cells with any generator, for the walks of a stream that is not
  constant.
\<close>

definition stream_game5 :: "32 word stream \<Rightarrow> nat \<times> nat \<Rightarrow> mesh_ptr list \<Rightarrow> mesh_ptr list \<Rightarrow> game" where
  "stream_game5 m p b g =
    \<lparr>board_size = (5, 5), board_meshes = b, goal_meshes = g, player = p,
     checkpoints = 0, won = False, mt = m\<rparr>"

text \<open>
  The smallest board with a cell inside the perimeter: 3 by 3 cells, the token on the one
  cell inside, and any generator.
\<close>

definition closed_board :: "mesh_ptr list" where
  "closed_board =
    [Some wall_mesh, Some wall_mesh, Some wall_mesh,
     Some wall_mesh, Some floor_mesh, Some wall_mesh,
     Some wall_mesh, Some wall_mesh, Some wall_mesh]"

definition game3 :: "32 word stream \<Rightarrow> mesh_ptr list \<Rightarrow> mesh_ptr list \<Rightarrow> game" where
  "game3 m b g =
    \<lparr>board_size = (3, 3), board_meshes = b, goal_meshes = g, player = (1, 1),
     checkpoints = 0, won = False, mt = m\<rparr>"


section \<open>Results, loops and the slide of the token\<close>

lemma ok_Inr [simp]: "(ok x = Some (Inr y)) = (x = y)"
  by (simp add: ok_def)

lemma fail_Inr [simp]: "fail e \<noteq> Some (Inr y)"
  by (simp add: fail_def)

lemma and_then_Inr [simp]:
  "(and_then m f = Some (Inr y)) = (\<exists>x. m = Some (Inr x) \<and> f x = Some (Inr y))"
  by (auto simp: and_then_def split: option.splits sum.splits)

lemma at_index_Inr [simp]: "(at_index v i = Some (Inr x)) = (i < length v \<and> x = v ! i)"
  by (auto simp: at_index_def)

lemma set_index_Inr [simp]: "(set_index v i x = Some (Inr v')) = (i < length v \<and> v' = v[i := x])"
  by (auto simp: set_index_def)

lemma for_each_invariant:
  assumes "for_each js body a = Some (Inr b)" and "P a"
    and "\<And>i x y. i \<in> set js \<Longrightarrow> P x \<Longrightarrow> body i x = Some (Inr y) \<Longrightarrow> P y"
  shows "P b"
  using assms
proof (induction js arbitrary: a)
  case Nil
  then show ?case by simp
next
  case (Cons j js)
  then obtain x where x: "body j a = Some (Inr x)" "for_each js body x = Some (Inr b)"
    by auto
  have "P x" using Cons.prems(2,3) x(1) by auto
  then show ?case using Cons.IH [OF x(2)] Cons.prems(3) by auto
qed

lemma index_less: "x < w \<Longrightarrow> y < h \<Longrightarrow> y * w + x < w * (h::nat)"
proof -
  assume a: "x < w" "y < h"
  then have "y * w + x < y * w + w" by simp
  also have "\<dots> = (y + 1) * w" by simp
  also have "\<dots> \<le> h * w" using a(2) by (intro mult_le_mono1) simp
  finally show ?thesis by (simp add: mult.commute)
qed

lemma cell_index_in_board:
  "in_board s p \<Longrightarrow> fst (board_size s) * snd (board_size s) < 2 ^ 32 \<Longrightarrow>
     cell_index s p = snd p * fst (board_size s) + fst p \<and> cell_index s p < fst (board_size s) * snd (board_size s)"
  using index_less [of "fst p" "fst (board_size s)" "snd p" "snd (board_size s)"]
  by (simp add: cell_index_def in_board_def)

lemma inside_small:
  assumes "sized s" "inside s p"
  shows "fst p + 1 < 2 ^ 32" "snd p + 1 < 2 ^ 32"
proof -
  let ?w = "fst (board_size s)" and ?h = "snd (board_size s)"
  have p: "fst p + 1 < ?w" "snd p + 1 < ?h" using assms(2) by (simp_all add: inside_def)
  then have "0 < ?w" "0 < ?h" by linarith+
  then have "?w \<le> ?w * ?h" "?h \<le> ?w * ?h" by simp_all
  moreover have "?w * ?h < 2 ^ 32" using assms(1) by (simp add: sized_def)
  ultimately show "fst p + 1 < 2 ^ 32" "snd p + 1 < 2 ^ 32" using p by linarith+
qed

lemma inside_in_board: "inside s p \<Longrightarrow> in_board s p"
  by (auto simp: inside_def in_board_def)

lemma step_player_ahead:
  assumes "sized s" "inside s (player s)" "unit_step dx dy"
  shows "step_player s dx dy = cell_ahead s dx dy 1" "in_board s (step_player s dx dy)"
  using assms inside_small [OF assms(1,2)]
  by (auto simp: step_player_def cell_ahead_def u32_def unit_step_def inside_def in_board_def nat_add_distrib nat_diff_distrib)

lemma step_inside:
  assumes "inside s (player s)" "unit_step dx dy" "\<not> on_perimeter s (cell_ahead s dx dy 1)"
  shows "inside s (cell_ahead s dx dy 1)" "dist (s\<lparr>player := cell_ahead s dx dy 1\<rparr>) dx dy < dist s dx dy"
  using assms
  by (auto simp: cell_ahead_def unit_step_def inside_def on_perimeter_def dist_def nat_add_distrib nat_diff_distrib)

lemma cell_ahead_0 [simp]: "cell_ahead s dx dy 0 = player s"
  by (simp add: cell_ahead_def)

lemma cell_ahead_Suc:
  assumes "inside s (cell_ahead s dx dy (Suc 0))"
  shows "cell_ahead (s\<lparr>player := cell_ahead s dx dy (Suc 0)\<rparr>) dx dy j = cell_ahead s dx dy (Suc j)"
  using assms by (auto simp: cell_ahead_def inside_def algebra_simps)

lemma player_update_simps [simp]:
  "sized (s\<lparr>player := p\<rparr>) = sized s"
  "perimeter_walls (s\<lparr>player := p\<rparr>) = perimeter_walls s"
  "inside (s\<lparr>player := p\<rparr>) q = inside s q"
  "in_board (s\<lparr>player := p\<rparr>) q = in_board s q"
  "is_wall (s\<lparr>player := p\<rparr>) q = is_wall s q"
  "is_sticky (s\<lparr>player := p\<rparr>) q = is_sticky s q"
  "cell_index (s\<lparr>player := p\<rparr>) q = cell_index s q"
  by (simp_all add: sized_def perimeter_walls_def inside_def in_board_def is_wall_def is_sticky_def
      cell_index_def on_perimeter_def)

lemma slide_stops_now:
  "in_board s (cell_ahead s dx dy 1) \<Longrightarrow> is_wall s (cell_ahead s dx dy 1) \<Longrightarrow> slide_stops s dx dy 0"
  by (simp add: slide_stops_def)

lemma slide_stops_sticky:
  assumes "inside s (cell_ahead s dx dy 1)" "\<not> is_wall s (cell_ahead s dx dy 1)"
    "is_sticky s (cell_ahead s dx dy 1)" "in_board s (cell_ahead s dx dy 2)"
  shows "slide_stops s dx dy 1"
  using assms by (auto simp: slide_stops_def le_Suc_eq numeral_2_eq_2)

lemma slide_stops_later:
  assumes "inside s (cell_ahead s dx dy 1)" "\<not> is_wall s (cell_ahead s dx dy 1)"
    "\<not> is_sticky s (cell_ahead s dx dy 1)"
    "slide_stops (s\<lparr>player := cell_ahead s dx dy 1\<rparr>) dx dy k"
  shows "slide_stops s dx dy (Suc k)"
proof -
  have sh: "\<And>j. cell_ahead (s\<lparr>player := cell_ahead s dx dy (Suc 0)\<rparr>) dx dy j = cell_ahead s dx dy (Suc j)"
    using cell_ahead_Suc assms(1) by simp
  have a: "\<And>j. 1 \<le> j \<Longrightarrow> j \<le> Suc k \<Longrightarrow> inside s (cell_ahead s dx dy j) \<and> \<not> is_wall s (cell_ahead s dx dy j)"
  proof -
    fix j :: nat assume j: "1 \<le> j" "j \<le> Suc k"
    show "inside s (cell_ahead s dx dy j) \<and> \<not> is_wall s (cell_ahead s dx dy j)"
    proof (cases "j = 1")
      case True then show ?thesis using assms(1,2) by simp
    next
      case False
      then obtain i where i: "j = Suc i" "1 \<le> i" "i \<le> k" using j by (cases j) auto
      then show ?thesis using assms(4) by (simp add: slide_stops_def sh)
    qed
  qed
  have b: "\<And>j. 1 \<le> j \<Longrightarrow> j < Suc k \<Longrightarrow> \<not> is_sticky s (cell_ahead s dx dy j)"
  proof -
    fix j :: nat assume j: "1 \<le> j" "j < Suc k"
    show "\<not> is_sticky s (cell_ahead s dx dy j)"
    proof (cases "j = 1")
      case True then show ?thesis using assms(3) by simp
    next
      case False
      then obtain i where i: "j = Suc i" "1 \<le> i" "i < k" using j by (cases j) auto
      then show ?thesis using assms(4) by (simp add: slide_stops_def sh)
    qed
  qed
  have c: "in_board s (cell_ahead s dx dy (Suc k + 1))"
    "is_wall s (cell_ahead s dx dy (Suc k + 1)) \<or> (1 \<le> Suc k \<and> is_sticky s (cell_ahead s dx dy (Suc k)))"
    using assms(3,4) by (auto simp: slide_stops_def sh)
  show ?thesis unfolding slide_stops_def using a b c by blast
qed

lemma move_loop_slides:
  assumes "sized s" "perimeter_walls s" "unit_step dx dy" "inside s (player s)"
  shows "\<exists>k. move_loop s dx dy = Some (Inr (s\<lparr>player := cell_ahead s dx dy k\<rparr>)) \<and> slide_stops s dx dy k"
  using assms
proof (induction "dist s dx dy" arbitrary: s rule: less_induct)
  case less
  let ?p = "cell_ahead s dx dy 1"
  have step: "step_player s dx dy = ?p" and inb: "in_board s ?p"
    using step_player_ahead [OF less.prems(1,4,3)] by simp_all
  have idx: "cell_index s ?p < length (board_meshes s)" "cell_index s ?p < length (goal_meshes s)"
    using cell_index_in_board [OF inb] less.prems(1) by (simp_all add: sized_def)
  show ?case
  proof (cases "is_wall s ?p")
    case True
    then have "move_loop s dx dy = Some (Inr s)"
      using idx by (subst move_loop.simps) (simp add: step is_wall_def at_index_def ok_def)
    then show ?thesis using slide_stops_now [OF inb True] by (intro exI [of _ 0]) simp
  next
    case False
    then have "\<not> on_perimeter s ?p" using less.prems(2) inb unfolding perimeter_walls_def by blast
    note ins = step_inside [OF less.prems(4,3) this]
    let ?s = "s\<lparr>player := ?p\<rparr>"
    show ?thesis
    proof (cases "is_sticky s ?p")
      case True
      have "move_loop s dx dy = Some (Inr ?s)"
        using idx False True
        by (subst move_loop.simps) (simp add: step is_wall_def is_sticky_def at_index_def ok_def)
      moreover have "in_board s (cell_ahead s dx dy 2)"
      proof -
        have "sized ?s" "inside ?s (player ?s)" using less.prems(1) ins(1) by simp_all
        from step_player_ahead [OF this less.prems(3)]
        have "in_board ?s (cell_ahead ?s dx dy 1)" by simp
        moreover have "cell_ahead ?s dx dy 1 = cell_ahead s dx dy 2"
          using cell_ahead_Suc [of s dx dy 1] ins(1) by (simp add: numeral_2_eq_2)
        ultimately show ?thesis by simp
      qed
      ultimately show ?thesis
        using slide_stops_sticky [OF ins(1) False True] by (intro exI [of _ 1]) simp
    next
      case nonsticky: False
      have "\<exists>k. move_loop ?s dx dy = Some (Inr (?s\<lparr>player := cell_ahead ?s dx dy k\<rparr>)) \<and> slide_stops ?s dx dy k"
        using less.hyps [of ?s] ins less.prems by simp
      then obtain k where k: "move_loop ?s dx dy = Some (Inr (?s\<lparr>player := cell_ahead ?s dx dy k\<rparr>))"
        "slide_stops ?s dx dy k" by blast
      have "move_loop s dx dy = move_loop ?s dx dy"
        using idx False nonsticky
        by (subst move_loop.simps) (simp add: step is_wall_def is_sticky_def at_index_def ok_def)
      then have "move_loop s dx dy = Some (Inr (s\<lparr>player := cell_ahead s dx dy (Suc k)\<rparr>))"
        using k(1) ins(1) by (simp add: cell_ahead_Suc)
      then show ?thesis
        using slide_stops_later [OF ins(1) False nonsticky k(2)] by blast
    qed
  qed
qed

section \<open>Frames and indices\<close>

lemma mt_only_refl [simp]: "mt_only s s"
  by (simp add: mt_only_def)

lemma mt_only_update [simp]: "mt_only s (s\<lparr>mt := r\<rparr>)"
  by (simp add: mt_only_def)

lemma mt_only_trans: "mt_only s s1 \<Longrightarrow> mt_only s1 s2 \<Longrightarrow> mt_only s s2"
  by (cases s, cases s1, cases s2) (simp add: mt_only_def)

lemma mt_only_fields:
  assumes "mt_only s s'"
  shows "board_size s' = board_size s" "board_meshes s' = board_meshes s"
    "goal_meshes s' = goal_meshes s" "player s' = player s"
    "checkpoints s' = checkpoints s" "won s' = won s"
    "cell_index s' p = cell_index s p" "board_cells s' = board_cells s"
    "float_index s' q = float_index s q"
proof -
  have e: "s' = s\<lparr>mt := mt s'\<rparr>" using assms by (simp add: mt_only_def)
  show "board_size s' = board_size s" by (subst e) simp
  then show "cell_index s' p = cell_index s p" "board_cells s' = board_cells s"
    "float_index s' q = float_index s q"
    by (simp_all add: cell_index_def board_cells_def float_index_def)
  show "board_meshes s' = board_meshes s" by (subst e) simp
  show "goal_meshes s' = goal_meshes s" by (subst e) simp
  show "player s' = player s" by (subst e) simp
  show "checkpoints s' = checkpoints s" by (subst e) simp
  show "won s' = won s" by (subst e) simp
qed

lemma draw_mod_Inr [simp]:
  "(draw_mod m s = Some (Inr (r, s'))) =
     (m \<noteq> 0 \<and> r = unat (shd (mt s)) mod m \<and> s' = s\<lparr>mt := stl (mt s)\<rparr>)"
  by (auto simp: draw_mod_def draw_def)

lemma random_board_position_mt:
  assumes "random_board_position s = Some (Inr (pos, s'))"
  shows "mt_only s s'"
  using assms by (auto simp: random_board_position_def mt_only_def)

lemma u32_small: "0 \<le> i \<Longrightarrow> i < 2 ^ 32 \<Longrightarrow> u32 i = nat i"
  by (simp add: u32_def)

lemma random_board_position_inside:
  assumes "random_board_position s = Some (Inr (pos, s'))"
    and "3 \<le> fst (board_size s)" "3 \<le> snd (board_size s)"
    and "fst (board_size s) * snd (board_size s) < 2 ^ 32"
  shows "inside s pos"
proof -
  let ?w = "fst (board_size s)" and ?h = "snd (board_size s)"
  have "?w \<le> ?w * ?h" "?h \<le> ?w * ?h" using assms(2,3) by simp_all
  then have b: "?w < 2 ^ 32" "?h < 2 ^ 32" using assms(4) by linarith+
  have w: "u32 (int ?w - 2) = ?w - 2" and h: "u32 (int ?h - 2) = ?h - 2"
    using assms(2,3) b by (simp_all add: u32_small nat_diff_distrib)
  obtain x y where xy: "pos = (u32 (int x + 1), u32 (int y + 1))" "x < ?w - 2" "y < ?h - 2"
    using assms(1-3) unfolding random_board_position_def w h by auto
  then have "u32 (int x + 1) = x + 1" "u32 (int y + 1) = y + 1"
    using b by (simp_all add: u32_small nat_add_distrib)
  then show ?thesis using xy by (auto simp: inside_def)
qed

lemma cell_index_inj:
  assumes "in_board s p" "in_board s q" "fst (board_size s) * snd (board_size s) < 2 ^ 32"
    and "cell_index s p = cell_index s q"
  shows "p = q"
proof -
  let ?w = "fst (board_size s)"
  have e: "snd p * ?w + fst p = snd q * ?w + fst q"
    using cell_index_in_board [OF assms(1,3)] cell_index_in_board [OF assms(2,3)] assms(4) by simp
  have lt: "fst p < ?w" "fst q < ?w" using assms(1,2) by (simp_all add: in_board_def)
  from e have "(snd p * ?w + fst p) mod ?w = (snd q * ?w + fst q) mod ?w" by simp
  then have x: "fst p = fst q" using lt by simp
  from e have "(snd p * ?w + fst p) div ?w = (snd q * ?w + fst q) div ?w" by simp
  then have "snd p = snd q" using lt by simp
  with x show ?thesis by (simp add: prod_eq_iff)
qed

lemma bit_length_le: "n < 2 ^ k \<Longrightarrow> bit_length n \<le> k"
proof (induction k arbitrary: n)
  case 0
  then show ?case by (simp add: bit_length.simps)
next
  case (Suc k)
  have "n div 2 < 2 ^ k" using Suc.prems by simp
  from Suc.IH [OF this] show ?case by (subst bit_length.simps) simp
qed

text \<open>A whole number below \<open>2^24\<close> is a \<^verbatim>\<open>float\<close>: rounding leaves it as it is.\<close>

lemma f32_exact:
  assumes "\<bar>i\<bar> < 2 ^ 24"
  shows "f32 i = i"
proof -
  have "nat \<bar>i\<bar> < 2 ^ 24" using assms by (simp add: nat_less_iff)
  then have "bit_length (nat \<bar>i\<bar>) - 24 = 0" using bit_length_le by simp
  then show ?thesis by (simp add: f32_def)
qed

lemma f32_numeral [simp]:
  "f32 0 = 0" "f32 1 = 1" "f32 2 = 2" "f32 3 = 3" "f32 4 = 4" "f32 5 = 5"
  by (simp_all add: f32_exact)

section \<open>Laying the floor\<close>

lemma paint_row:
  "(for_each js (\<lambda>j b. set_index b (f j) v) b0 = Some (Inr b)) =
     ((\<forall>j \<in> set js. f j < length b0) \<and> b = fold (\<lambda>j b. b[f j := v]) js b0)"
  by (induction js arbitrary: b0) auto

lemma nth_fold_update:
  "i < length b0 \<Longrightarrow>
     fold (\<lambda>j b. b[f j := v]) js b0 ! i = (if i \<in> f ` set js then v else b0 ! i)"
  by (induction js arbitrary: b0) (auto simp: nth_list_update)

lemma length_fold_update [simp]: "length (fold (\<lambda>j b. b[f j := v]) js b0) = length b0"
  by (induction js arbitrary: b0) auto

lemma paint_rows:
  "(for_each is (\<lambda>i. for_each js (\<lambda>j b. set_index b (f i j) v)) b0 = Some (Inr b)) =
     ((\<forall>i \<in> set is. \<forall>j \<in> set js. f i j < length b0)
      \<and> b = fold (\<lambda>i. fold (\<lambda>j b. b[f i j := v]) js) is b0)"
proof (induction "is" arbitrary: b0)
  case Nil
  then show ?case by auto
next
  case (Cons i "is")
  show ?case by (simp add: paint_row Cons.IH)
qed

lemma nth_fold_fold_update:
  "i < length b0 \<Longrightarrow>
     fold (\<lambda>i. fold (\<lambda>j b. b[f i j := v]) js) is b0 ! i
       = (if \<exists>x \<in> set is. \<exists>y \<in> set js. f x y = i then v else b0 ! i)"
proof (induction "is" arbitrary: b0)
  case Nil
  then show ?case by simp
next
  case (Cons i "is")
  then show ?case by (simp add: nth_fold_update) blast
qed

lemma length_fold_fold_update [simp]:
  "length (fold (\<lambda>i. fold (\<lambda>j b. b[f i j := v]) js) is b0) = length b0"
  by (induction "is" arbitrary: b0) auto

lemma exact_small: "exact_board s \<Longrightarrow> small_board s"
  by (simp add: exact_board_def small_board_def)

lemma sized_small: "sized s \<Longrightarrow> small_board s"
  by (simp add: sized_def small_board_def)

lemma board_cells_small: "small_board s \<Longrightarrow> board_cells s = fst (board_size s) * snd (board_size s)"
  by (simp add: board_cells_def small_board_def)

lemma inside_not_perimeter: "inside s p \<Longrightarrow> \<not> on_perimeter s p"
  by (auto simp: inside_def on_perimeter_def)

lemma not_perimeter_inside: "in_board s p \<Longrightarrow> \<not> on_perimeter s p \<Longrightarrow> inside s p"
  by (auto simp: inside_def on_perimeter_def in_board_def)

lemma remove_everything_result:
  assumes "small_board s"
  shows "\<exists>s1. remove_everything s = Some (Inr s1) \<and> mt s1 = mt s \<and> same_frame s s1 \<and> sized s1
    \<and> goal_meshes s1 = replicate (board_cells s) None
    \<and> (\<forall>p. in_board s p \<longrightarrow>
          board_meshes s1 ! cell_index s p = Some (if inside s p then floor_mesh else wall_mesh))"
proof -
  let ?w = "fst (board_size s)" and ?h = "snd (board_size s)"
  let ?f = "\<lambda>x y. cell_index s (x, y)"
  let ?b0 = "replicate (board_cells s) (Some wall_mesh)"
  let ?b = "fold (\<lambda>x. fold (\<lambda>y b. b[?f x y := Some floor_mesh]) [1 ..< ?h - 1]) [1 ..< ?w - 1] ?b0"
  let ?s1 = "s\<lparr>board_meshes := ?b, goal_meshes := replicate (board_cells s) None\<rparr>"
  have n: "board_cells s = ?w * ?h" using assms by (rule board_cells_small)
  have small: "?w * ?h < 2 ^ 32" using assms by (simp add: small_board_def)
  have rng: "\<forall>x \<in> set [1 ..< ?w - 1]. \<forall>y \<in> set [1 ..< ?h - 1]. ?f x y < length ?b0"
  proof (intro ballI)
    fix x y assume "x \<in> set [1 ..< ?w - 1]" "y \<in> set [1 ..< ?h - 1]"
    then have "in_board s (x, y)" by (auto simp: in_board_def)
    from cell_index_in_board [OF this small] show "?f x y < length ?b0" by (simp add: n)
  qed
  have run: "remove_everything s = Some (Inr ?s1)"
    unfolding remove_everything_def using rng by (simp add: paint_rows)
  have cells: "board_meshes ?s1 ! cell_index s p = Some (if inside s p then floor_mesh else wall_mesh)"
    if p: "in_board s p" for p
  proof -
    have lt: "cell_index s p < length ?b0"
      using cell_index_in_board [OF p small] by (simp add: n)
    have "(\<exists>x \<in> set [1 ..< ?w - 1]. \<exists>y \<in> set [1 ..< ?h - 1]. ?f x y = cell_index s p) = inside s p"
    proof
      assume "\<exists>x \<in> set [1 ..< ?w - 1]. \<exists>y \<in> set [1 ..< ?h - 1]. ?f x y = cell_index s p"
      then obtain x y where xy: "1 \<le> x" "x < ?w - 1" "1 \<le> y" "y < ?h - 1"
        "cell_index s (x, y) = cell_index s p" by auto
      then have "in_board s (x, y)" by (auto simp: in_board_def)
      from cell_index_inj [OF this p small xy(5)] have "p = (x, y)" by simp
      then show "inside s p" using xy by (auto simp: inside_def)
    next
      assume "inside s p"
      then have "fst p \<in> set [1 ..< ?w - 1]" "snd p \<in> set [1 ..< ?h - 1]"
        by (auto simp: inside_def)
      then show "\<exists>x \<in> set [1 ..< ?w - 1]. \<exists>y \<in> set [1 ..< ?h - 1]. ?f x y = cell_index s p"
        by (intro bexI [of _ "fst p"] bexI [of _ "snd p"]) simp_all
    qed
    then show ?thesis using lt by (simp add: nth_fold_fold_update)
  qed
  have "sized ?s1" using small by (simp add: sized_def n)
  moreover have "same_frame s ?s1" by (simp add: same_frame_def)
  ultimately show ?thesis using run cells by (intro exI [of _ ?s1]) simp
qed

section \<open>Walls and goops\<close>

lemma same_frame_refl [simp]: "same_frame s s"
  by (simp add: same_frame_def)

lemma same_frame_trans: "same_frame s s1 \<Longrightarrow> same_frame s1 s2 \<Longrightarrow> same_frame s s2"
  by (simp add: same_frame_def)

lemma mt_only_same_frame: "mt_only s s' \<Longrightarrow> same_frame s s'"
  by (simp add: same_frame_def mt_only_fields)

lemma same_frame_simps:
  assumes "same_frame s s'"
  shows "cell_index s' = cell_index s" "in_board s' = in_board s" "inside s' = inside s"
    "on_perimeter s' = on_perimeter s" "small_board s' = small_board s"
    "board_cells s' = board_cells s" "player s' = player s" "board_size s' = board_size s"
    "float_index s' = float_index s" "exact_board s' = exact_board s"
  using assms
  by (auto simp: same_frame_def cell_index_def in_board_def inside_def on_perimeter_def
      small_board_def board_cells_def float_index_def exact_board_def fun_eq_iff)

lemma place_wall_cases:
  assumes "place_wall s = Some (Inr s')"
  shows "\<exists>pos s1. random_board_position s = Some (Inr (pos, s1))
    \<and> (s' = s1 \<or> (pos \<noteq> player s1 \<and> cell_index s1 pos < length (board_meshes s1)
         \<and> s' = s1\<lparr>board_meshes := (board_meshes s1)[cell_index s1 pos := Some wall_mesh]\<rparr>))"
  using assms by (auto simp: place_wall_def split: if_splits)

lemma place_goop_cases:
  assumes "place_goop s = Some (Inr s')"
  shows "\<exists>pos s1. random_board_position s = Some (Inr (pos, s1))
    \<and> (s' = s1 \<or> (cell_index s1 pos < length (goal_meshes s1)
         \<and> board_meshes s1 ! cell_index s1 pos \<noteq> Some wall_mesh
         \<and> s' = s1\<lparr>goal_meshes := (goal_meshes s1)[cell_index s1 pos := Some goop_mesh]\<rparr>))"
  using assms by (auto simp: place_goop_def split: if_splits)

lemma place_wall_result:
  assumes "place_wall s = Some (Inr s')"
  shows "same_frame s s'" "goal_meshes s' = goal_meshes s" "walls_kept s s'"
    "\<forall>i. board_meshes s' ! i = board_meshes s ! i \<or> board_meshes s' ! i = Some wall_mesh"
proof -
  obtain pos s1 where p: "random_board_position s = Some (Inr (pos, s1))"
    and r: "s' = s1 \<or> (cell_index s1 pos < length (board_meshes s1)
         \<and> s' = s1\<lparr>board_meshes := (board_meshes s1)[cell_index s1 pos := Some wall_mesh]\<rparr>)"
    using place_wall_cases [OF assms] by blast
  note m = mt_only_fields [OF random_board_position_mt [OF p]]
  show "same_frame s s'" using r m by (auto simp: same_frame_def)
  show "goal_meshes s' = goal_meshes s" using r m by auto
  show "walls_kept s s'" using r m by (auto simp: walls_kept_def nth_list_update)
  show "\<forall>i. board_meshes s' ! i = board_meshes s ! i \<or> board_meshes s' ! i = Some wall_mesh"
    using r m by (auto simp: nth_list_update)
qed

lemma place_wall_player:
  assumes "place_wall s = Some (Inr s')" "small_board s" "inside s (player s)"
  shows "board_meshes s' ! cell_index s (player s) = board_meshes s ! cell_index s (player s)"
proof -
  obtain pos s1 where p: "random_board_position s = Some (Inr (pos, s1))"
    and r: "s' = s1 \<or> (pos \<noteq> player s1
         \<and> s' = s1\<lparr>board_meshes := (board_meshes s1)[cell_index s1 pos := Some wall_mesh]\<rparr>)"
    using place_wall_cases [OF assms(1)] by blast
  note m = mt_only_fields [OF random_board_position_mt [OF p]]
  have "3 \<le> fst (board_size s)" "3 \<le> snd (board_size s)"
    using assms(3) by (auto simp: inside_def)
  from random_board_position_inside [OF p this] assms(2)
  have "inside s pos" by (simp add: small_board_def)
  then have "pos \<noteq> player s \<Longrightarrow> cell_index s pos \<noteq> cell_index s (player s)"
    using cell_index_inj [of s pos "player s"] assms(2,3)
    by (auto simp: small_board_def inside_in_board)
  then show ?thesis using r m by auto
qed

lemma walls_kept_refl [simp]: "walls_kept s s"
  by (simp add: walls_kept_def)

lemma walls_kept_trans: "walls_kept s s1 \<Longrightarrow> walls_kept s1 s2 \<Longrightarrow> walls_kept s s2"
  by (simp add: walls_kept_def)

lemma place_walls_result:
  assumes "place_walls s = Some (Inr s')"
  shows "same_frame s s'" "goal_meshes s' = goal_meshes s" "walls_kept s s'"
    "small_board s \<Longrightarrow> inside s (player s) \<Longrightarrow>
       board_meshes s' ! cell_index s (player s) = board_meshes s ! cell_index s (player s)"
    "\<forall>i. board_meshes s' ! i = board_meshes s ! i \<or> board_meshes s' ! i = Some wall_mesh"
proof -
  obtain r where f: "for_each [0 ..< r + 2] (\<lambda>w. place_wall) (s\<lparr>mt := stl (mt s)\<rparr>) = Some (Inr s')"
    using assms by (auto simp: place_walls_def)
  let ?s0 = "s\<lparr>mt := stl (mt s)\<rparr>"
  let ?P = "\<lambda>x. same_frame s x \<and> goal_meshes x = goal_meshes s \<and> walls_kept s x
    \<and> (\<forall>i. board_meshes x ! i = board_meshes s ! i \<or> board_meshes x ! i = Some wall_mesh)
    \<and> (small_board s \<and> inside s (player s) \<longrightarrow>
         board_meshes x ! cell_index s (player s) = board_meshes s ! cell_index s (player s))"
  have "?P s'"
  proof (rule for_each_invariant [OF f, where P = ?P])
    show "?P ?s0" by (simp add: same_frame_def walls_kept_def cell_index_def)
  next
    fix i x y assume x: "?P x" and y: "place_wall x = Some (Inr y)"
    note r = place_wall_result [OF y]
    note sf = same_frame_simps [OF conjunct1 [OF x]]
    have "small_board s \<and> inside s (player s) \<longrightarrow>
         board_meshes y ! cell_index s (player s) = board_meshes s ! cell_index s (player s)"
      using place_wall_player [OF y] x sf by auto
    moreover have "\<forall>i. board_meshes y ! i = board_meshes s ! i \<or> board_meshes y ! i = Some wall_mesh"
      using r(4) x by metis
    ultimately show "?P y"
      using x r same_frame_trans walls_kept_trans by metis
  qed
  then show "same_frame s s'" "goal_meshes s' = goal_meshes s" "walls_kept s s'"
    "small_board s \<Longrightarrow> inside s (player s) \<Longrightarrow>
       board_meshes s' ! cell_index s (player s) = board_meshes s ! cell_index s (player s)"
    "\<forall>i. board_meshes s' ! i = board_meshes s ! i \<or> board_meshes s' ! i = Some wall_mesh"
    by simp_all
qed

lemma place_goop_result:
  assumes "place_goop s = Some (Inr s')"
  shows "same_frame s s'" "board_meshes s' = board_meshes s"
    "length (goal_meshes s') = length (goal_meshes s)"
    "only_goop s \<Longrightarrow> only_goop s'"
    "\<forall>i. goal_meshes s' ! i = Some goop_mesh \<and> i < length (goal_meshes s)
       \<longrightarrow> goal_meshes s ! i = Some goop_mesh \<or> board_meshes s ! i \<noteq> Some wall_mesh"
proof -
  obtain pos s1 where p: "random_board_position s = Some (Inr (pos, s1))"
    and r: "s' = s1 \<or> (cell_index s1 pos < length (goal_meshes s1)
         \<and> board_meshes s1 ! cell_index s1 pos \<noteq> Some wall_mesh
         \<and> s' = s1\<lparr>goal_meshes := (goal_meshes s1)[cell_index s1 pos := Some goop_mesh]\<rparr>)"
    using place_goop_cases [OF assms] by blast
  note m = mt_only_fields [OF random_board_position_mt [OF p]]
  show "same_frame s s'" using r m by (auto simp: same_frame_def)
  show "board_meshes s' = board_meshes s" using r m by auto
  show "length (goal_meshes s') = length (goal_meshes s)" using r m by auto
  show "only_goop s \<Longrightarrow> only_goop s'"
    using r m set_update_subset_insert [of "goal_meshes s" "cell_index s pos" "Some goop_mesh"]
    by (auto simp: only_goop_def)
  show "\<forall>i. goal_meshes s' ! i = Some goop_mesh \<and> i < length (goal_meshes s)
       \<longrightarrow> goal_meshes s ! i = Some goop_mesh \<or> board_meshes s ! i \<noteq> Some wall_mesh"
    using r m by (auto simp: nth_list_update split: if_splits)
qed

lemma place_goops_result:
  assumes "place_goops s = Some (Inr s')"
  shows "same_frame s s'" "board_meshes s' = board_meshes s"
    "length (goal_meshes s') = length (goal_meshes s)"
    "only_goop s \<Longrightarrow> only_goop s'"
    "\<forall>i. goal_meshes s' ! i = Some goop_mesh \<and> i < length (goal_meshes s)
       \<longrightarrow> goal_meshes s ! i = Some goop_mesh \<or> board_meshes s ! i \<noteq> Some wall_mesh"
proof -
  obtain r where f: "for_each [0 ..< r] (\<lambda>g. place_goop) (s\<lparr>mt := stl (mt s)\<rparr>) = Some (Inr s')"
    using assms by (auto simp: place_goops_def)
  let ?s0 = "s\<lparr>mt := stl (mt s)\<rparr>"
  let ?P = "\<lambda>x. same_frame s x \<and> board_meshes x = board_meshes s
    \<and> length (goal_meshes x) = length (goal_meshes s) \<and> (only_goop s \<longrightarrow> only_goop x)
    \<and> (\<forall>i. goal_meshes x ! i = Some goop_mesh \<and> i < length (goal_meshes s)
       \<longrightarrow> goal_meshes s ! i = Some goop_mesh \<or> board_meshes s ! i \<noteq> Some wall_mesh)"
  have "?P s'"
  proof (rule for_each_invariant [OF f, where P = ?P])
    show "?P ?s0" by (simp add: same_frame_def only_goop_def)
  next
    fix i x y assume x: "?P x" and y: "place_goop x = Some (Inr y)"
    note r = place_goop_result [OF y]
    have "\<forall>i. goal_meshes y ! i = Some goop_mesh \<and> i < length (goal_meshes s)
       \<longrightarrow> goal_meshes s ! i = Some goop_mesh \<or> board_meshes s ! i \<noteq> Some wall_mesh"
      using r(5) x by metis
    then show "?P y"
      using x r(1-4) same_frame_trans by metis
  qed
  then show "same_frame s s'" "board_meshes s' = board_meshes s"
    "length (goal_meshes s') = length (goal_meshes s)"
    "only_goop s \<Longrightarrow> only_goop s'"
    "\<forall>i. goal_meshes s' ! i = Some goop_mesh \<and> i < length (goal_meshes s)
       \<longrightarrow> goal_meshes s ! i = Some goop_mesh \<or> board_meshes s ! i \<noteq> Some wall_mesh"
    by simp_all
qed

section \<open>Walks and the placement of goals\<close>

lemma at_float_index_Inr [simp]:
  "(at_float_index v i = Some (Inr x)) = (0 \<le> i \<and> nat i < length v \<and> x = v ! nat i)"
  by (auto simp: at_float_index_def)

lemma walk_step_cases:
  assumes "walk_step (s, at, c) = Some (Inr (s', at', c'))"
  shows "s' = s\<lparr>mt := stl (mt s)\<rparr>" "length c' = length c"
    "walk_slide s' (directions ! (unat (shd (mt s)) mod 4)) at = Some (Inr at')"
    "0 \<le> float_index s at'" "nat (float_index s at') < length c"
    "c' = c[nat (float_index s at') := c ! nat (float_index s at') + 1]"
  using assms by (auto simp: walk_step_def float_index_def)

lemma random_walk_mt:
  assumes "random_walk prev_goal (s, c) = Some (Inr (s', c'))"
  shows "mt_only s s'" "length c' = length c"
proof -
  obtain at' where f: "for_each [0 ..< 20] (\<lambda>step. walk_step)
      (s, to_vec2 prev_goal, c) = Some (Inr (s', at', c'))"
    using assms by (auto simp: random_walk_def)
  let ?P = "\<lambda>(x, a, k). mt_only s x \<and> length k = length c"
  have "?P (s', at', c')"
  proof (rule for_each_invariant [OF f, where P = ?P])
    show "?P (s, to_vec2 prev_goal, c)" by simp
  next
    fix i x y assume x: "?P x" and y: "walk_step x = Some (Inr y)"
    obtain x1 x2 x3 y1 y2 y3 where e: "x = (x1, x2, x3)" "y = (y1, y2, y3)"
      by (metis prod_cases3)
    from walk_step_cases(1,2) [OF y [unfolded e]] x show "?P y"
      unfolding e by (auto intro: mt_only_trans [of s x1])
  qed
  then show "mt_only s s'" "length c' = length c" by simp_all
qed

lemma random_walks_mt:
  assumes "random_walks prev_goal s = Some (Inr (s', c))"
  shows "mt_only s s'" "length c = board_cells s"
proof -
  let ?P = "\<lambda>(x, k). mt_only s x \<and> length k = board_cells s"
  have "?P (s', c)"
  proof (rule for_each_invariant [OF assms [unfolded random_walks_def], where P = ?P])
    show "?P (s, replicate (board_cells s) 0)" by simp
  next
    fix i x y assume x: "?P x" and y: "random_walk prev_goal x = Some (Inr y)"
    obtain x1 x2 y1 y2 where e: "x = (x1, x2)" "y = (y1, y2)"
      by (metis prod.exhaust)
    from random_walk_mt [OF y [unfolded e]] x show "?P y"
      unfolding e by (auto intro: mt_only_trans [of s x1])
  qed
  then show "mt_only s s'" "length c = board_cells s" by simp_all
qed

lemma pick_goal_cases:
  assumes "pick_goal s board_counts possible_cells = Some (Inr (g, s'))"
  shows "g \<in> set possible_cells" "s' = s\<lparr>mt := stl (mt s)\<rparr>"
proof -
  let ?sorted = "sort_key (count_at s board_counts) possible_cells"
  obtain k where "k < length ?sorted" "g = ?sorted ! k" and s': "s' = s\<lparr>mt := stl (mt s)\<rparr>"
    using assms by (auto simp: pick_goal_def Let_def)
  then show "g \<in> set possible_cells" by (metis nth_mem set_sort)
  show "s' = s\<lparr>mt := stl (mt s)\<rparr>" by (rule s')
qed

lemma place_checkpoint_Inr:
  "(place_checkpoint g s = Some (Inr s')) =
     (cell_index s g < length (goal_meshes s) \<and> goal_meshes s ! cell_index s g = None
      \<and> s' = s\<lparr>goal_meshes := (goal_meshes s)[cell_index s g := Some checkpoint_mesh]\<rparr>)"
  by (auto simp: place_checkpoint_def)

lemma place_goal_cases:
  assumes "place_goal prev_goal s = Some (Inr (placed, s'))"
  shows "\<exists>s1 board_counts possible_cells.
     random_walks prev_goal s = Some (Inr (s1, board_counts))
     \<and> find_possible_cells s1 board_counts = Some (Inr possible_cells)
     \<and> (if possible_cells = [] then placed = None \<and> s' = s1
        else \<exists>g. placed = Some g \<and> g \<in> set possible_cells
          \<and> cell_index s g < length (goal_meshes s) \<and> goal_meshes s ! cell_index s g = None
          \<and> s' = s1\<lparr>mt := stl (mt s1),
                 goal_meshes := (goal_meshes s)[cell_index s g := Some checkpoint_mesh]\<rparr>)"
proof -
  obtain s1 board_counts possible_cells where
    w: "random_walks prev_goal s = Some (Inr (s1, board_counts))"
    and c: "find_possible_cells s1 board_counts = Some (Inr possible_cells)"
    and r: "(if possible_cells = [] then ok (None, s1)
      else
        and_then (pick_goal s1 board_counts possible_cells) (\<lambda>(g, s2).
        and_then (place_checkpoint g s2) (\<lambda>s3. ok (Some g, s3)))) = Some (Inr (placed, s'))"
    using assms unfolding place_goal_def by auto
  note m = mt_only_fields [OF random_walks_mt(1) [OF w]]
  have "if possible_cells = [] then placed = None \<and> s' = s1
        else \<exists>g. placed = Some g \<and> g \<in> set possible_cells
          \<and> cell_index s g < length (goal_meshes s) \<and> goal_meshes s ! cell_index s g = None
          \<and> s' = s1\<lparr>mt := stl (mt s1),
                 goal_meshes := (goal_meshes s)[cell_index s g := Some checkpoint_mesh]\<rparr>"
  proof (cases "possible_cells = []")
    case True
    then show ?thesis using r by simp
  next
    case False
    from r False obtain g s2 where p: "pick_goal s1 board_counts possible_cells = Some (Inr (g, s2))"
      and q: "place_checkpoint g s2 = Some (Inr s')" and g: "placed = Some g"
      by auto
    note pc = pick_goal_cases [OF p]
    have "cell_index s2 g = cell_index s g" using pc(2) m by (simp add: cell_index_def)
    then show ?thesis using False g pc q m by (auto simp: place_checkpoint_Inr)
  qed
  then show ?thesis using w c by blast
qed

lemma count_list_update:
  "i < length v \<Longrightarrow>
     count_list (v[i := x]) y + (if v ! i = y then 1 else 0)
       = count_list v y + (if x = y then 1 else 0)"
proof (induction v arbitrary: i)
  case Nil
  then show ?case by simp
next
  case (Cons a v)
  show ?case
  proof (cases i)
    case 0
    then show ?thesis by auto
  next
    case (Suc n)
    then show ?thesis using Cons.IH [of n] Cons.prems by auto
  qed
qed

lemma place_goal_result:
  assumes "place_goal prev_goal s = Some (Inr (placed, s'))"
  shows "same_frame s s'" "board_meshes s' = board_meshes s"
    "placed = None \<Longrightarrow> goal_meshes s' = goal_meshes s"
    "placed = Some g \<Longrightarrow> cell_index s g < length (goal_meshes s) \<and> goal_meshes s ! cell_index s g = None
       \<and> goal_meshes s' = (goal_meshes s)[cell_index s g := Some checkpoint_mesh]"
proof -
  from place_goal_cases [OF assms] obtain s1 board_counts possible_cells where
    w: "random_walks prev_goal s = Some (Inr (s1, board_counts))"
    and r: "if possible_cells = [] then placed = None \<and> s' = s1
        else \<exists>g. placed = Some g \<and> g \<in> set possible_cells
          \<and> cell_index s g < length (goal_meshes s) \<and> goal_meshes s ! cell_index s g = None
          \<and> s' = s1\<lparr>mt := stl (mt s1),
                 goal_meshes := (goal_meshes s)[cell_index s g := Some checkpoint_mesh]\<rparr>"
    by blast
  note m = mt_only_fields [OF random_walks_mt(1) [OF w]]
  show "same_frame s s'" using r m by (auto simp: same_frame_def split: if_splits)
  show "board_meshes s' = board_meshes s" using r m by (auto split: if_splits)
  show "placed = None \<Longrightarrow> goal_meshes s' = goal_meshes s" using r m by (auto split: if_splits)
  show "placed = Some g \<Longrightarrow> cell_index s g < length (goal_meshes s) \<and> goal_meshes s ! cell_index s g = None
       \<and> goal_meshes s' = (goal_meshes s)[cell_index s g := Some checkpoint_mesh]"
    using r m by (auto split: if_splits)
qed

lemma place_goals_result:
  "place_goals goals prev_goal s = Some (Inr r) \<Longrightarrow> placed_goals (goals, prev_goal, s) r"
proof (induction goals prev_goal s arbitrary: r rule: place_goals.induct)
  case (1 goals prev_goal s)
  show ?case
  proof (cases "goals < 2")
    case False
    then have "r = (goals, prev_goal, s)" using "1.prems" by (simp add: place_goals.simps)
    then show ?thesis by (simp add: placed_goals_def)
  next
    case True
    then obtain placed s1 where p: "place_goal prev_goal s = Some (Inr (placed, s1))"
      and q: "(case placed of None \<Rightarrow> ok (goals, prev_goal, s1)
              | Some g \<Rightarrow> place_goals (goals + 1) g s1) = Some (Inr r)"
      using "1.prems" by (subst (asm) place_goals.simps) auto
    note pr = place_goal_result [OF p]
    show ?thesis
    proof (cases placed)
      case None
      then have "r = (goals, prev_goal, s1)" using q by simp
      then show ?thesis using pr None by (simp add: placed_goals_def)
    next
      case (Some g)
      then have rec: "place_goals (goals + 1) g s1 = Some (Inr r)" using q by simp
      obtain goals' prev_goal' s' where r: "r = (goals', prev_goal', s')" by (metis prod_cases3)
      have ih: "placed_goals (goals + 1, g, s1) (goals', prev_goal', s')"
        using "1.IH" [OF True Some rec] r by simp
      note g = pr(4) [OF Some]
      let ?v = "goal_meshes s" and ?i = "cell_index s g"
      have cnt: "count_list (goal_meshes s1) (Some checkpoint_mesh)
          = count_list ?v (Some checkpoint_mesh) + 1"
        using count_list_update [of ?i ?v "Some checkpoint_mesh" "Some checkpoint_mesh"] g by simp
      have oth: "count_list (goal_meshes s1) m = count_list ?v m"
        if "m \<noteq> Some checkpoint_mesh" "m \<noteq> None" for m
        using count_list_update [of ?i ?v "Some checkpoint_mesh" m] g that by auto
      have ci: "cell_index s1 = cell_index s" using same_frame_simps(1) [OF pr(1)] .
      have here: "goal_meshes s1 ! ?i = Some checkpoint_mesh" using g by simp
      have len: "length (goal_meshes s1) = length ?v" "?i < length ?v" using g by simp_all
      show ?thesis
        unfolding r placed_goals_def
        using ih [unfolded placed_goals_def] pr(1,2) same_frame_trans [OF pr(1)] cnt oth ci here len True
        by (auto split: if_splits)
    qed
  qed
qed

section \<open>The generation as a whole\<close>

lemma remove_everything_frame:
  assumes "remove_everything s = Some (Inr s1)"
  shows "same_frame s s1" "goal_meshes s1 = replicate (board_cells s) None" "mt s1 = mt s"
  using assms by (auto simp: remove_everything_def same_frame_def)

lemma only_goop_counts:
  assumes "only_goop s" "m \<noteq> goop_mesh"
  shows "count_list (goal_meshes s) (Some m) = 0"
proof -
  have "Some m \<notin> set (goal_meshes s)" using assms by (auto simp: only_goop_def)
  then show ?thesis by (simp add: count_list_0_iff)
qed

lemma generate_phases:
  assumes "generate s = Some (Inr (goals, prev_goal, s4))"
  shows "\<exists>s1 s2 s3. remove_everything s = Some (Inr s1) \<and> place_walls s1 = Some (Inr s2)
     \<and> place_goops s2 = Some (Inr s3) \<and> place_goals 0 (player s3) s3 = Some (Inr (goals, prev_goal, s4))"
  using assms by (auto simp: generate_def)

lemma generate_result:
  assumes "generate s = Some (Inr (goals, prev_goal, s4))"
  shows "same_frame s s4"
    and "1 \<le> goals \<Longrightarrow> cell_index s prev_goal < length (goal_meshes s4)
           \<and> goal_meshes s4 ! cell_index s prev_goal = Some checkpoint_mesh"
    and "goals \<le> 2"
    and "count_list (goal_meshes s4) (Some checkpoint_mesh) = goals"
    and "count_list (goal_meshes s4) (Some goal_mesh) = 0"
    and "count_list (goal_meshes s4) (Some checkpoint_collected_mesh) = 0"
proof -
  from generate_phases [OF assms] obtain s1 s2 s3 where
    a: "remove_everything s = Some (Inr s1)" and b: "place_walls s1 = Some (Inr s2)"
    and c: "place_goops s2 = Some (Inr s3)"
    and d: "place_goals 0 (player s3) s3 = Some (Inr (goals, prev_goal, s4))"
    by blast
  note ra = remove_everything_frame [OF a]
  note rb = place_walls_result [OF b]
  note rc = place_goops_result [OF c]
  note rd = place_goals_result [OF d, unfolded placed_goals_def, simplified]
  have f3: "same_frame s s3"
    using ra(1) rb(1) rc(1) by (blast intro: same_frame_trans)
  then show "same_frame s s4" using rd by (blast intro: same_frame_trans)
  have "only_goop s1" using ra(2) by (auto simp: only_goop_def)
  then have "only_goop s2" using rb(2) by (simp add: only_goop_def)
  then have og: "only_goop s3" by (rule rc(4))
  note z = only_goop_counts [OF og]
  show "goals \<le> 2" using rd by simp
  show "count_list (goal_meshes s4) (Some checkpoint_mesh) = goals" using rd z by simp
  show "count_list (goal_meshes s4) (Some goal_mesh) = 0" using rd z by simp
  show "count_list (goal_meshes s4) (Some checkpoint_collected_mesh) = 0" using rd z by simp
  show "1 \<le> goals \<Longrightarrow> cell_index s prev_goal < length (goal_meshes s4)
           \<and> goal_meshes s4 ! cell_index s prev_goal = Some checkpoint_mesh"
    using rd same_frame_simps(1) [OF f3] by (auto split: if_splits)
qed

lemma generate_board:
  assumes "generate s = Some (Inr (goals, prev_goal, s4))" "small_board s"
  shows "sized s4" "perimeter_walls s4"
    and "inside s (player s) \<Longrightarrow> board_meshes s4 ! cell_index s (player s) = Some floor_mesh"
proof -
  from generate_phases [OF assms(1)] obtain s1 s2 s3 where
    a: "remove_everything s = Some (Inr s1)" and b: "place_walls s1 = Some (Inr s2)"
    and c: "place_goops s2 = Some (Inr s3)"
    and d: "place_goals 0 (player s3) s3 = Some (Inr (goals, prev_goal, s4))"
    by blast
  from remove_everything_result [OF assms(2)] a have
    ra: "same_frame s s1" "sized s1" "\<forall>p. in_board s p \<longrightarrow>
          board_meshes s1 ! cell_index s p = Some (if inside s p then floor_mesh else wall_mesh)"
    by auto
  note rb = place_walls_result [OF b]
  note rc = place_goops_result [OF c]
  note rd = place_goals_result [OF d, unfolded placed_goals_def, simplified]
  note f1 = same_frame_simps [OF ra(1)]
  have f4: "same_frame s s4"
    using generate_result(1) [OF assms(1)] .
  note f4s = same_frame_simps [OF f4]
  have bm: "board_meshes s4 = board_meshes s2" using rc(2) rd by simp
  have len: "length (goal_meshes s4) = length (goal_meshes s1)" using rb(2) rc(3) rd by simp
  show "sized s4"
    using ra(2) rb(3) bm len f1(8) f4s(8) by (simp add: sized_def walls_kept_def)
  show "perimeter_walls s4"
    unfolding perimeter_walls_def
  proof (intro allI impI)
    fix p assume p: "in_board s4 p \<and> on_perimeter s4 p"
    then have "in_board s p" "\<not> inside s p"
      using f4s inside_not_perimeter [of s p] by auto
    then have "board_meshes s1 ! cell_index s p = Some wall_mesh" using ra(3) by (cases p) auto
    then have "board_meshes s2 ! cell_index s p = Some wall_mesh"
      using rb(3) by (simp add: walls_kept_def)
    then show "is_wall s4 p" using bm f4s by (simp add: is_wall_def)
  qed
  show "board_meshes s4 ! cell_index s (player s) = Some floor_mesh" if "inside s (player s)"
  proof -
    have "board_meshes s1 ! cell_index s (player s) = Some floor_mesh"
      using ra(3) that inside_in_board [of s "player s"] by (cases "player s") auto
    moreover have "board_meshes s2 ! cell_index s1 (player s1) = board_meshes s1 ! cell_index s1 (player s1)"
      using rb(4) that assms(2) f1 by simp
    ultimately show ?thesis using bm f1 by simp
  qed
qed

lemma create_board_generated:
  assumes "create_board s = Some r"
  shows "(\<exists>e. r = Inl e) \<or> (\<exists>s0 goals prev_goal s1. same_frame s s0
     \<and> generate s0 = Some (Inr (goals, prev_goal, s1)) \<and> 0 < goals
     \<and> main_goal prev_goal s1 = Some r)"
  using assms
proof (induction rule: create_board.raw_induct)
  case (1 cb s r)
  show ?case
  proof (cases "generate s")
    case None
    then show ?thesis using 1(2) by simp
  next
    case (Some a)
    show ?thesis
    proof (cases a)
      case (Inl e)
      then show ?thesis using 1(2) Some by auto
    next
      case (Inr t)
      obtain goals prev_goal s1 where t: "t = (goals, prev_goal, s1)" by (metis prod_cases3)
      note g = Some [unfolded Inr t]
      show ?thesis
      proof (cases "goals = 0")
        case True
        then have "cb s1 = Some r" using 1(2) g by simp
        moreover have "create_board s = create_board s1"
          using g True by (subst create_board.simps) simp
        ultimately have "(\<exists>e. r = Inl e) \<or> (\<exists>s0 goals prev_goal s1a. same_frame s1 s0
          \<and> generate s0 = Some (Inr (goals, prev_goal, s1a)) \<and> 0 < goals
          \<and> main_goal prev_goal s1a = Some r)"
          using 1(1) [of s1 r] 1(3) by metis
        with generate_result(1) [OF g] show ?thesis
          by (blast intro: same_frame_trans)
      next
        case False
        then have "main_goal prev_goal s1 = Some r" using 1(2) g by simp
        then show ?thesis using g False by (intro disjI2 exI [of _ s]) auto
      qed
    qed
  qed
qed (rule assms)

lemma main_goal_Inr:
  "(main_goal prev_goal s = Some (Inr s')) =
     (cell_index s prev_goal < length (goal_meshes s)
      \<and> s' = s\<lparr>goal_meshes := (goal_meshes s)[cell_index s prev_goal := Some goal_mesh]\<rparr>)"
  by (auto simp: main_goal_def)

section \<open>The generator on constant streams\<close>

lemma upt_5: "[0 ..< 5] = [0, 1, 2, 3, 4]" "[Suc 0 ..< 4] = [1, 2, 3]"
  by (simp_all add: upt_rec)

lemma replicate_25:
  "replicate 25 x = [x, x, x, x, x, x, x, x, x, x, x, x, x, x, x, x, x, x, x, x, x, x, x, x, x]"
  by (simp add: numeral_eq_Suc)

lemma game5_fields [simp]:
  "board_size (game5 r p b g c w) = (5, 5)" "board_meshes (game5 r p b g c w) = b"
  "goal_meshes (game5 r p b g c w) = g" "player (game5 r p b g c w) = p"
  "checkpoints (game5 r p b g c w) = c" "won (game5 r p b g c w) = w"
  "mt (game5 r p b g c w) = sconst r"
  "(game5 r p b g c w)\<lparr>mt := sconst r\<rparr> = game5 r p b g c w"
  "(game5 r p b g c w)\<lparr>board_meshes := b'\<rparr> = game5 r p b' g c w"
  "(game5 r p b g c w)\<lparr>goal_meshes := g'\<rparr> = game5 r p b g' c w"
  "(game5 r p b g c w)\<lparr>player := p'\<rparr> = game5 r p' b g c w"
  "(game5 r p b g c w)\<lparr>won := w'\<rparr> = game5 r p b g c w'"
  "(game5 r p b g c w)\<lparr>checkpoints := c'\<rparr> = game5 r p b g c' w"
  by (simp_all add: game5_def)

lemma game5_index [simp]:
  "x < 5 \<Longrightarrow> y < 5 \<Longrightarrow> cell_index (game5 r p b g c w) (x, y) = y * 5 + x"
  "board_cells (game5 r p b g c w) = 25"
  by (simp_all add: cell_index_def board_cells_def)

lemma remove_everything_game5:
  "remove_everything (game5 r p b g c w) = Some (Inr (game5 r p open_board (replicate 25 None) c w))"
  unfolding remove_everything_def
  by (simp add: upt_5 replicate_25 set_index_def and_then_def ok_def open_board_def)

lemma u32_3 [simp]: "u32 3 = 3" "u32 2 = 2" "u32 1 = 1"
  by (simp_all add: u32_def)

lemma random_board_position_ones:
  "random_board_position (game5 1 p b g c w) = Some (Inr ((2, 2), game5 1 p b g c w))"
  by (simp add: random_board_position_def draw_mod_def draw_def and_then_def ok_def)

lemma random_board_position_zeros:
  "random_board_position (game5 0 p b g c w) = Some (Inr ((1, 1), game5 0 p b g c w))"
  by (simp add: random_board_position_def draw_mod_def draw_def and_then_def ok_def)

lemma for_each_same:
  assumes "\<And>i. i \<in> set js \<Longrightarrow> body i a = Some (Inr a)"
  shows "for_each js body a = Some (Inr a)"
  using assms by (induction js) (simp_all add: and_then_def ok_def)

lemma place_walls_ones:
  "place_walls (game5 1 (2, 2) b g c w) = Some (Inr (game5 1 (2, 2) b g c w))"
proof -
  have "place_wall (game5 1 (2, 2) b g c w) = Some (Inr (game5 1 (2, 2) b g c w))"
    by (simp add: place_wall_def random_board_position_ones and_then_def ok_def)
  then show ?thesis
    by (simp add: place_walls_def draw_mod_def draw_def and_then_def ok_def for_each_same)
qed

lemma place_walls_zeros:
  "place_walls (game5 0 (1, 1) b g c w) = Some (Inr (game5 0 (1, 1) b g c w))"
proof -
  have "place_wall (game5 0 (1, 1) b g c w) = Some (Inr (game5 0 (1, 1) b g c w))"
    by (simp add: place_wall_def random_board_position_zeros and_then_def ok_def)
  then show ?thesis
    by (simp add: place_walls_def draw_mod_def draw_def and_then_def ok_def for_each_same)
qed

lemma place_goops_zeros:
  "place_goops (game5 0 p b g c w) = Some (Inr (game5 0 p b g c w))"
  by (simp add: place_goops_def draw_mod_def draw_def and_then_def ok_def)

lemma place_goops_ones:
  "place_goops (game5 1 p open_board (replicate 25 None) c w)
     = Some (Inr (game5 1 p open_board ((replicate 25 None)[12 := Some goop_mesh]) c w))"
  by (simp add: place_goops_def place_goop_def random_board_position_ones draw_mod_def draw_def
      and_then_def ok_def at_index_def set_index_def open_board_def)

lemma for_each_iterate:
  assumes "\<And>k. k < length js \<Longrightarrow> body (js ! k) (f k) = Some (Inr (f (Suc k)))"
  shows "for_each js body (f 0) = Some (Inr (f (length js)))"
  using assms
proof (induction js arbitrary: f)
  case Nil
  then show ?case by (simp add: ok_def)
next
  case (Cons j js)
  have first: "body j (f 0) = Some (Inr (f (Suc 0)))" using Cons.prems [of 0] by simp
  have "for_each js body ((f \<circ> Suc) 0) = Some (Inr ((f \<circ> Suc) (length js)))"
  proof (rule Cons.IH)
    fix k assume "k < length js"
    then show "body (js ! k) ((f \<circ> Suc) k) = Some (Inr ((f \<circ> Suc) (Suc k)))"
      using Cons.prems [of "Suc k"] by simp
  qed
  then show ?case using first by (simp add: and_then_def)
qed

lemma walk_steps_const:
  fixes s :: game
  defines "d \<equiv> directions ! (unat (shd (mt s)) mod 4)"
  assumes same: "s\<lparr>mt := stl (mt s)\<rparr> = s"
    and slide0: "walk_slide s d a0 = Some (Inr a1)"
    and slide1: "walk_slide s d a1 = Some (Inr a1)"
    and idx: "float_index s a1 = int i" "i < length k"
  shows "for_each [0 ..< n] (\<lambda>step. walk_step) (s, a0, k)
     = Some (Inr (s, if n = 0 then a0 else a1, k[i := k ! i + n]))"
proof -
  let ?f = "\<lambda>j. (s, if j = 0 then a0 else a1, k[i := k ! i + j])"
  have "for_each [0 ..< n] (\<lambda>step. walk_step) (?f 0) = Some (Inr (?f (length [0 ..< n])))"
  proof (rule for_each_iterate)
    fix j assume "j < length [0 ..< n]"
    have "walk_slide s d (if j = 0 then a0 else a1) = Some (Inr a1)"
      using slide0 slide1 by simp
    then show "walk_step (?f j) = Some (Inr (?f (Suc j)))"
      using idx same by (simp add: walk_step_def draw_mod_def draw_def and_then_def ok_def
          at_float_index_def d_def)
  qed
  then show ?thesis by simp
qed

lemma random_walks_const:
  fixes s :: game
  defines "d \<equiv> directions ! (unat (shd (mt s)) mod 4)"
  assumes same: "s\<lparr>mt := stl (mt s)\<rparr> = s"
    and slide0: "walk_slide s d (to_vec2 prev_goal) = Some (Inr a1)"
    and slide1: "walk_slide s d a1 = Some (Inr a1)"
    and idx: "float_index s a1 = int i" "i < board_cells s"
  shows "random_walks prev_goal s = Some (Inr (s, (replicate (board_cells s) 0)[i := 2000]))"
proof -
  let ?f = "\<lambda>j. (s, (replicate (board_cells s) 0)[i := 20 * j])"
  have "for_each [0 ..< 100] (\<lambda>iter. random_walk prev_goal) (?f 0)
      = Some (Inr (?f (length [0 ..< 100])))"
  proof (rule for_each_iterate)
    fix j assume "j < length [0 ..< 100]"
    have "for_each [0 ..< 20] (\<lambda>step. walk_step)
        (s, to_vec2 prev_goal, (replicate (board_cells s) 0)[i := 20 * j])
      = Some (Inr (s, if (20::nat) = 0 then to_vec2 prev_goal else a1,
          ((replicate (board_cells s) 0)[i := 20 * j])
            [i := (replicate (board_cells s) 0)[i := 20 * j] ! i + 20]))"
      using walk_steps_const [OF same slide0 [unfolded d_def] slide1 [unfolded d_def] idx(1)] idx(2)
      by simp
    then show "random_walk prev_goal (?f j) = Some (Inr (?f (Suc j)))"
      using idx(2) by (simp add: random_walk_def and_then_def ok_def add.commute)
  qed
  moreover have "(replicate (board_cells s) (0::nat))[i := 0] = replicate (board_cells s) 0"
    using idx(2) by (metis list_update_id nth_replicate)
  ultimately show ?thesis by (simp add: random_walks_def)
qed

lemma game5_float_index [simp]:
  assumes "0 \<le> x" "x < 5" "0 \<le> y" "y < 5"
  shows "float_index (game5 r p b g c w) (x, y) = y * 5 + x"
proof -
  have "\<bar>y * 5\<bar> < 2 ^ 24" "\<bar>y * 5 + x\<bar> < 2 ^ 24" using assms by simp_all
  then show ?thesis by (simp add: float_index_def f32_exact)
qed

lemma directions_nth [simp]:
  "directions ! 0 = (- 1, 0)" "directions ! Suc 0 = (1, 0)"
  by (simp_all add: directions_def)

lemma open_board_nth [simp]:
  "length open_board = 25" "open_board ! 5 = Some wall_mesh"
  "open_board ! 12 = Some floor_mesh" "open_board ! 13 = Some floor_mesh"
  "open_board ! 14 = Some wall_mesh"
  by (simp_all add: open_board_def)

lemma walk_slide_zeros:
  "walk_slide (game5 r p open_board g c w) (- 1, 0) (1, 1) = Some (Inr (1, 1))"
  by (subst walk_slide.simps) (simp add: float_step_def at_float_index_def ok_def)

lemma walk_slide_ones_stay:
  "walk_slide (game5 r p open_board g c w) (1, 0) (3, 2) = Some (Inr (3, 2))"
  by (subst walk_slide.simps) (simp add: float_step_def at_float_index_def ok_def)

lemma walk_slide_ones_go:
  assumes "length g = 25" "g ! 13 \<noteq> Some goop_mesh"
  shows "walk_slide (game5 r p open_board g c w) (1, 0) (2, 2) = Some (Inr (3, 2))"
  using assms
  by (subst walk_slide.simps)
    (simp add: float_step_def at_float_index_def ok_def walk_slide_ones_stay)

lemma random_walks_zeros:
  "random_walks (1, 1) (game5 0 p open_board g c w)
     = Some (Inr (game5 0 p open_board g c w, (replicate 25 0)[6 := 2000]))"
  using random_walks_const [of "game5 0 p open_board g c w" "(1, 1)" "(1, 1)" 6]
  by (simp add: to_vec2_def walk_slide_zeros)

lemma random_walks_ones_go:
  assumes "length g = 25" "g ! 13 \<noteq> Some goop_mesh"
  shows "random_walks (2, 2) (game5 1 p open_board g c w)
     = Some (Inr (game5 1 p open_board g c w, (replicate 25 0)[13 := 2000]))"
  using random_walks_const [of "game5 1 p open_board g c w" "(2, 2)" "(3, 2)" 13] assms
  by (simp add: to_vec2_def walk_slide_ones_go walk_slide_ones_stay)

lemma random_walks_ones_stay:
  "random_walks (3, 2) (game5 1 p open_board g c w)
     = Some (Inr (game5 1 p open_board g c w, (replicate 25 0)[13 := 2000]))"
  using random_walks_const [of "game5 1 p open_board g c w" "(3, 2)" "(3, 2)" 13]
  by (simp add: to_vec2_def walk_slide_ones_stay)

lemma find_possible_cells_zeros:
  "find_possible_cells (game5 r (1, 1) b (replicate 25 None) c w) ((replicate 25 0)[6 := 2000])
     = Some (Inr [])"
  by (simp add: find_possible_cells_def possible_cell_def upt_5 replicate_25
      at_index_def and_then_def ok_def)

lemma find_possible_cells_ones_first:
  "find_possible_cells (game5 r (2, 2) b ((replicate 25 None)[12 := Some goop_mesh]) c w)
      ((replicate 25 0)[13 := 2000])
     = Some (Inr [(3, 2)])"
  by (simp add: find_possible_cells_def possible_cell_def upt_5 replicate_25
      at_index_def and_then_def ok_def)

lemma find_possible_cells_ones_second:
  "find_possible_cells
      (game5 r (2, 2) b ((replicate 25 None)[12 := Some goop_mesh, 13 := Some checkpoint_mesh]) c w)
      ((replicate 25 0)[13 := 2000])
     = Some (Inr [])"
  by (simp add: find_possible_cells_def possible_cell_def upt_5 replicate_25
      at_index_def and_then_def ok_def)

lemma place_goal_zeros:
  "place_goal (1, 1) (game5 0 (1, 1) open_board (replicate 25 None) c w)
     = Some (Inr (None, game5 0 (1, 1) open_board (replicate 25 None) c w))"
  by (simp add: place_goal_def random_walks_zeros [unfolded One_nat_def]
      find_possible_cells_zeros [unfolded One_nat_def] and_then_def ok_def)

lemma generate_zeros:
  "generate (game5 0 (1, 1) b g c w)
     = Some (Inr (0, (1, 1), game5 0 (1, 1) open_board (replicate 25 None) c w))"
  by (simp add: generate_def remove_everything_game5 place_walls_zeros [unfolded One_nat_def]
      place_goops_zeros place_goals.simps [of 0] place_goal_zeros [unfolded One_nat_def]
      and_then_def ok_def)

lemma pick_goal_ones:
  "pick_goal (game5 1 p b g c w) k [(3, 2)] = Some (Inr ((3, 2), game5 1 p b g c w))"
  by (simp add: pick_goal_def Let_def extend_limit.simps [of _ _ _ "Suc 0"] draw_mod_def draw_def
      at_index_def and_then_def ok_def)

lemma place_goal_ones_first:
  "place_goal (2, 2) (game5 1 (2, 2) open_board ((replicate 25 None)[12 := Some goop_mesh]) c w)
     = Some (Inr (Some (3, 2), game5 1 (2, 2) open_board
          ((replicate 25 None)[12 := Some goop_mesh, 13 := Some checkpoint_mesh]) c w))"
  by (simp add: place_goal_def random_walks_ones_go find_possible_cells_ones_first pick_goal_ones
      place_checkpoint_def at_index_def set_index_def and_then_def ok_def)

lemma place_goal_ones_second:
  "place_goal (3, 2) (game5 1 (2, 2) open_board
        ((replicate 25 None)[12 := Some goop_mesh, 13 := Some checkpoint_mesh]) c w)
     = Some (Inr (None, game5 1 (2, 2) open_board
          ((replicate 25 None)[12 := Some goop_mesh, 13 := Some checkpoint_mesh]) c w))"
  by (simp add: place_goal_def random_walks_ones_stay find_possible_cells_ones_second
      and_then_def ok_def)

lemma generate_ones:
  "generate (game5 1 (2, 2) b g c w)
     = Some (Inr (1, (3, 2), game5 1 (2, 2) open_board
          ((replicate 25 None)[12 := Some goop_mesh, 13 := Some checkpoint_mesh]) c w))"
  by (simp add: generate_def remove_everything_game5 place_walls_ones place_goops_ones
      place_goals.simps [of 0] place_goals.simps [of "Suc 0"]
      place_goal_ones_first place_goal_ones_second and_then_def ok_def)

lemma create_board_ones:
  "create_board (game5 1 (2, 2) b g c w)
     = Some (Inr (game5 1 (2, 2) open_board
          ((replicate 25 None)[12 := Some goop_mesh, 13 := Some goal_mesh]) c w))"
  by (subst create_board.simps)
    (simp add: generate_ones main_goal_def set_index_def and_then_def ok_def)

lemma create_board_zeros: "create_board (game5 0 (1, 1) b g c w) = None"
proof -
  have "\<forall>b g. s = game5 0 (1, 1) b g c w \<longrightarrow> False" if "create_board s = Some r" for s r
    using that
  proof (induction rule: create_board.raw_induct)
    case (1 cb s r)
    show ?case
    proof (intro allI impI)
      fix b g assume s: "s = game5 0 (1, 1) b g c w"
      then have "cb (game5 0 (1, 1) open_board (replicate 25 None) c w) = Some r"
        using 1(2) by (simp add: generate_zeros [unfolded One_nat_def])
      moreover have "create_board (game5 0 (1, 1) open_board (replicate 25 None) c w)
          = create_board s"
        unfolding s by (subst (2) create_board.simps) (simp add: generate_zeros [unfolded One_nat_def])
      ultimately show False using 1(1,3) by metis
    qed
  qed (rule that)
  then show ?thesis by (cases "create_board (game5 0 (1, 1) b g c w)") auto
qed

section \<open>What a move changes\<close>

lemma move_loop_player:
  assumes "move_loop s dx dy = Some r"
  shows "\<forall>s'. r = Inr s' \<longrightarrow> (\<exists>p. s' = s\<lparr>player := p\<rparr>)"
proof (rule move_loop.raw_induct
    [where P = "\<lambda>s dx dy r. \<forall>s'. r = Inr s' \<longrightarrow> (\<exists>p. s' = s\<lparr>player := p\<rparr>)", OF _ assms])
  fix ml s dx dy r
  assume ih: "\<And>s dx dy r. ml s dx dy = Some r \<Longrightarrow> \<forall>s'. r = Inr s' \<longrightarrow> (\<exists>p. s' = s\<lparr>player := p\<rparr>)"
    and eq: "(case at_index (board_meshes s) (cell_index s (step_player s dx dy)) of
       None \<Rightarrow> None
     | Some (Inl e) \<Rightarrow> Some (Inl e)
     | Some (Inr m) \<Rightarrow>
        if m \<noteq> Some wall_mesh then
          (let s' = s\<lparr>player := step_player s dx dy\<rparr> in
           case at_index (goal_meshes s') (cell_index s' (player s')) of
             None \<Rightarrow> None
           | Some (Inl e) \<Rightarrow> Some (Inl e)
           | Some (Inr g) \<Rightarrow> if g = Some goop_mesh then Some (Inr s') else ml s' dx dy)
        else Some (Inr s)) = Some r"
  let ?s = "s\<lparr>player := step_player s dx dy\<rparr>"
  show "\<forall>s'. r = Inr s' \<longrightarrow> (\<exists>p. s' = s\<lparr>player := p\<rparr>)"
  proof (intro allI impI)
    fix s' assume r: "r = Inr s'"
    have "s' = s \<or> s' = ?s \<or> ml ?s dx dy = Some (Inr s')"
      using eq unfolding r
      by (auto simp: Let_def at_index_def ok_def fail_def split: if_splits option.splits sum.splits)
    moreover have "\<exists>p. s' = s\<lparr>player := p\<rparr>" if m: "ml ?s dx dy = Some (Inr s')"
    proof -
      from ih [OF m] obtain p where "s' = ?s\<lparr>player := p\<rparr>" by blast
      then show ?thesis by (intro exI [of _ p]) simp
    qed
    moreover have "s = s\<lparr>player := player s\<rparr>" by simp
    ultimately show "\<exists>p. s' = s\<lparr>player := p\<rparr>" by blast
  qed
qed

lemma gather_checkpoint_cases:
  assumes "gather_checkpoint s = Some (Inr s')"
  shows "cell_index s (player s) < length (goal_meshes s)"
    and "goal_meshes s ! cell_index s (player s) = Some checkpoint_mesh \<Longrightarrow>
       s' = s\<lparr>goal_meshes := (goal_meshes s)[cell_index s (player s) := Some checkpoint_collected_mesh],
              checkpoints := checkpoints s + 1\<rparr>"
    and "goal_meshes s ! cell_index s (player s) \<noteq> Some checkpoint_mesh \<Longrightarrow> s' = s"
  using assms by (auto simp: gather_checkpoint_def split: if_splits)

lemma update_won_Inr:
  "(update_won s = Some (Inr s')) =
     (cell_index s (player s) < length (goal_meshes s)
      \<and> s' = s\<lparr>won := (goal_meshes s ! cell_index s (player s) = Some goal_mesh)\<rparr>)"
  by (auto simp: update_won_def)

lemma move_player_cases:
  assumes "move_player s dx dy = Some (Inr s')"
  shows "\<exists>p s1 s2. move_loop s dx dy = Some (Inr s1) \<and> s1 = s\<lparr>player := p\<rparr>
     \<and> gather_checkpoint s1 = Some (Inr s2) \<and> update_won s2 = Some (Inr s')"
proof -
  obtain s1 s2 where a: "move_loop s dx dy = Some (Inr s1)"
    and b: "gather_checkpoint s1 = Some (Inr s2)" and c: "update_won s2 = Some (Inr s')"
    using assms by (auto simp: move_player_def split: if_splits)
  from move_loop_player [OF a] obtain p where "s1 = s\<lparr>player := p\<rparr>" by blast
  then show ?thesis using a b c by blast
qed

lemma move_player_frame:
  assumes "move_player s dx dy = Some (Inr s')"
  shows "board_size s' = board_size s" "board_meshes s' = board_meshes s"
    "length (goal_meshes s') = length (goal_meshes s)" "mt s' = mt s"
proof -
  from move_player_cases [OF assms] obtain p s1 s2 where
    a: "s1 = s\<lparr>player := p\<rparr>" and b: "gather_checkpoint s1 = Some (Inr s2)"
    and c: "update_won s2 = Some (Inr s')" by blast
  have "s2 = s1 \<or> s2 = s1\<lparr>goal_meshes := (goal_meshes s1)[cell_index s1 (player s1) := Some checkpoint_collected_mesh],
              checkpoints := checkpoints s1 + 1\<rparr>"
    using gather_checkpoint_cases(2,3) [OF b] by blast
  then show "board_size s' = board_size s" "board_meshes s' = board_meshes s"
    "length (goal_meshes s') = length (goal_meshes s)" "mt s' = mt s"
    using a c by (auto simp: update_won_Inr)
qed

lemma perimeter_walls_open_board: "perimeter_walls (game5 r p open_board g c w)"
proof -
  have "small_board (game5 r p [] [] c w)" by (simp add: small_board_def)
  from remove_everything_result [OF this]
  have a: "in_board (game5 r p [] [] c w) q \<Longrightarrow>
      open_board ! cell_index (game5 r p [] [] c w) q
        = Some (if inside (game5 r p [] [] c w) q then floor_mesh else wall_mesh)" for q
    unfolding remove_everything_game5 by (cases q) auto
  show ?thesis
    unfolding perimeter_walls_def
  proof (intro allI impI)
    fix q assume q: "in_board (game5 r p open_board g c w) q \<and> on_perimeter (game5 r p open_board g c w) q"
    then have "in_board (game5 r p [] [] c w) q" "\<not> inside (game5 r p [] [] c w) q"
      by (auto simp: in_board_def inside_def on_perimeter_def)
    with a [of q] have "open_board ! cell_index (game5 r p [] [] c w) q = Some wall_mesh" by simp
    then show "is_wall (game5 r p open_board g c w) q" by (simp add: is_wall_def cell_index_def)
  qed
qed

lemma sized_game5: "length b = 25 \<Longrightarrow> length g = 25 \<Longrightarrow> sized (game5 r p b g c w)"
  by (simp add: sized_def)

lemma perimeter_walls_kept:
  assumes "perimeter_walls s" "board_size s' = board_size s" "walls_kept s s'"
  shows "perimeter_walls s'"
  using assms
  by (simp add: perimeter_walls_def in_board_def on_perimeter_def is_wall_def cell_index_def
      walls_kept_def)

lemma same_frame_size: "same_frame s s' \<Longrightarrow> board_size s' = board_size s"
  by (simp add: same_frame_def)

lemma walls_kept_same: "board_meshes s' = board_meshes s \<Longrightarrow> walls_kept s s'"
  by (simp add: walls_kept_def)

lemma create_board_result:
  assumes "create_board s = Some (Inr s')"
  shows "\<exists>s0 goals prev_goal s1. same_frame s s0
     \<and> generate s0 = Some (Inr (goals, prev_goal, s1)) \<and> 1 \<le> goals
     \<and> cell_index s1 prev_goal < length (goal_meshes s1)
     \<and> goal_meshes s1 ! cell_index s1 prev_goal = Some checkpoint_mesh
     \<and> s' = s1\<lparr>goal_meshes := (goal_meshes s1)[cell_index s1 prev_goal := Some goal_mesh]\<rparr>"
proof -
  from create_board_generated [OF assms] obtain s0 goals prev_goal s1 where
    f: "same_frame s s0" and g: "generate s0 = Some (Inr (goals, prev_goal, s1))"
    and n: "0 < goals" and m: "main_goal prev_goal s1 = Some (Inr s')"
    by auto
  have ci: "cell_index s1 = cell_index s0"
    using same_frame_simps(1) [OF generate_result(1) [OF g]] .
  have "1 \<le> goals" using n by simp
  from generate_result(2) [OF g this] m
  have "cell_index s1 prev_goal < length (goal_meshes s1)
     \<and> goal_meshes s1 ! cell_index s1 prev_goal = Some checkpoint_mesh
     \<and> s' = s1\<lparr>goal_meshes := (goal_meshes s1)[cell_index s1 prev_goal := Some goal_mesh]\<rparr>"
    by (simp add: main_goal_Inr ci)
  with f g \<open>1 \<le> goals\<close> show ?thesis by blast
qed

lemma create_board_frame:
  assumes "create_board s = Some (Inr s')"
  shows "same_frame s s'"
proof -
  from create_board_result [OF assms] obtain s0 goals prev_goal s1 where
    f: "same_frame s s0" and g: "generate s0 = Some (Inr (goals, prev_goal, s1))"
    and e: "s' = s1\<lparr>goal_meshes := (goal_meshes s1)[cell_index s1 prev_goal := Some goal_mesh]\<rparr>"
    by blast
  have "same_frame s1 s'" unfolding e by (simp add: same_frame_def)
  with f generate_result(1) [OF g] show ?thesis by (blast intro: same_frame_trans)
qed


lemma create_board_counts:
  assumes "create_board s = Some (Inr s')"
  shows "count_list (goal_meshes s') (Some goal_mesh) = 1"
    and "count_list (goal_meshes s') (Some checkpoint_mesh) \<le> 1"
proof -
  from create_board_result [OF assms] obtain s0 goals prev_goal s1 where
    g: "generate s0 = Some (Inr (goals, prev_goal, s1))" and n: "1 \<le> goals"
    and i: "cell_index s1 prev_goal < length (goal_meshes s1)"
    and c: "goal_meshes s1 ! cell_index s1 prev_goal = Some checkpoint_mesh"
    and e: "s' = s1\<lparr>goal_meshes := (goal_meshes s1)[cell_index s1 prev_goal := Some goal_mesh]\<rparr>"
    by blast
  note r = generate_result(3-5) [OF g]
  show "count_list (goal_meshes s') (Some goal_mesh) = 1"
    using count_list_update [OF i, of "Some goal_mesh" "Some goal_mesh"] c r e by simp
  show "count_list (goal_meshes s') (Some checkpoint_mesh) \<le> 1"
    using count_list_update [OF i, of "Some goal_mesh" "Some checkpoint_mesh"] c r e by simp
qed

lemma move_player_checkpoints:
  assumes "move_player s dx dy = Some (Inr s')"
  shows "cell_index s (player s') < length (goal_meshes s)"
    and "goal_meshes s ! cell_index s (player s') = Some checkpoint_mesh \<Longrightarrow>
       checkpoints s' = checkpoints s + 1
       \<and> goal_meshes s' = (goal_meshes s)[cell_index s (player s') := Some checkpoint_collected_mesh]"
    and "goal_meshes s ! cell_index s (player s') \<noteq> Some checkpoint_mesh \<Longrightarrow>
       checkpoints s' = checkpoints s \<and> goal_meshes s' = goal_meshes s"
proof -
  from move_player_cases [OF assms] obtain p s1 s2 where
    a: "s1 = s\<lparr>player := p\<rparr>" and b: "gather_checkpoint s1 = Some (Inr s2)"
    and c: "update_won s2 = Some (Inr s')" by blast
  have ci: "cell_index s1 = cell_index s" "goal_meshes s1 = goal_meshes s" "player s1 = p"
    "checkpoints s1 = checkpoints s"
    unfolding a by (simp_all add: cell_index_def fun_eq_iff)
  note g = gather_checkpoint_cases [OF b, unfolded ci]
  have "player s2 = p"
    using g(2,3) ci(3)
    by (cases "goal_meshes s ! cell_index s p = Some checkpoint_mesh") auto
  then have p: "player s' = p" using c by (auto simp: update_won_Inr)
  show "cell_index s (player s') < length (goal_meshes s)" using g(1) p by simp
  show "goal_meshes s ! cell_index s (player s') = Some checkpoint_mesh \<Longrightarrow>
       checkpoints s' = checkpoints s + 1
       \<and> goal_meshes s' = (goal_meshes s)[cell_index s (player s') := Some checkpoint_collected_mesh]"
    using g(2) c ci p by (auto simp: update_won_Inr)
  show "goal_meshes s ! cell_index s (player s') \<noteq> Some checkpoint_mesh \<Longrightarrow>
       checkpoints s' = checkpoints s \<and> goal_meshes s' = goal_meshes s"
    using g(3) c ci p by (auto simp: update_won_Inr)
qed

lemma move_player_conserves:
  assumes "move_player s dx dy = Some (Inr s')"
  shows "checkpoints s' + int (count_list (goal_meshes s') (Some checkpoint_mesh))
     = checkpoints s + int (count_list (goal_meshes s) (Some checkpoint_mesh))"
proof (cases "goal_meshes s ! cell_index s (player s') = Some checkpoint_mesh")
  case True
  note m = move_player_checkpoints(1,2) [OF assms]
  from count_list_update [OF m(1), of "Some checkpoint_collected_mesh" "Some checkpoint_mesh"]
  show ?thesis using m(2) [OF True] True by simp
next
  case False
  then show ?thesis using move_player_checkpoints(3) [OF assms] by simp
qed

lemma move_loop_example:
  assumes "length g = 25" "g ! 13 \<noteq> Some goop_mesh"
  shows "move_loop (game5 r (2, 2) open_board g c w) 1 0
     = Some (Inr (game5 r (3, 2) open_board g c w))"
proof -
  have stop: "move_loop (game5 r (3, 2) open_board g c w) 1 0
      = Some (Inr (game5 r (3, 2) open_board g c w))"
    by (subst move_loop.simps)
      (simp add: step_player_def u32_def at_index_def ok_def)
  show ?thesis
    using assms
    by (subst move_loop.simps)
      (simp add: step_player_def u32_def at_index_def ok_def stop)
qed

lemma move_player_example:
  "move_player (game5 1 (2, 2) open_board
        ((replicate 25 None)[12 := Some goop_mesh, 13 := Some checkpoint_mesh]) 0 False) 1 0
     = Some (Inr (game5 1 (3, 2) open_board
        ((replicate 25 None)[12 := Some goop_mesh, 13 := Some checkpoint_collected_mesh]) 1 False))"
  by (simp add: move_player_def u32_def move_loop_example gather_checkpoint_def update_won_def
      at_index_def set_index_def and_then_def ok_def)

section \<open>The list of possible cells\<close>

lemma possible_cell_Inr:
  assumes "possible_cell s board_counts y x cells = Some (Inr cells')"
  shows "cells' = cells @ (if candidate s board_counts (x, y) then [(x, y)] else [])"
  using assms
  by (auto simp: possible_cell_def candidate_def prod_eq_iff split: if_splits)

lemma possible_row:
  assumes "for_each xs (\<lambda>x. possible_cell s board_counts y x) cells = Some (Inr cells')"
  shows "cells' = cells @ map (\<lambda>x. (x, y)) (filter (\<lambda>x. candidate s board_counts (x, y)) xs)"
  using assms
proof (induction xs arbitrary: cells)
  case Nil
  then show ?case by simp
next
  case (Cons x xs)
  then obtain c1 where a: "possible_cell s board_counts y x cells = Some (Inr c1)"
    and b: "for_each xs (\<lambda>x. possible_cell s board_counts y x) c1 = Some (Inr cells')"
    by auto
  show ?case using Cons.IH [OF b] possible_cell_Inr [OF a] by simp
qed

lemma possible_rows:
  assumes "for_each ys (\<lambda>y. for_each xs (\<lambda>x. possible_cell s board_counts y x)) cells
     = Some (Inr cells')"
  shows "cells' = cells @ concat (map (\<lambda>y. map (\<lambda>x. (x, y))
     (filter (\<lambda>x. candidate s board_counts (x, y)) xs)) ys)"
  using assms
proof (induction ys arbitrary: cells)
  case Nil
  then show ?case by simp
next
  case (Cons y ys)
  then obtain c1 where a: "for_each xs (\<lambda>x. possible_cell s board_counts y x) cells = Some (Inr c1)"
    and b: "for_each ys (\<lambda>y. for_each xs (\<lambda>x. possible_cell s board_counts y x)) c1
      = Some (Inr cells')"
    by auto
  show ?case using Cons.IH [OF b] possible_row [OF a] by simp
qed

section \<open>Every pass of the generation returns\<close>

lemma for_each_returns:
  assumes "P a"
    and "\<And>i x. i \<in> set js \<Longrightarrow> P x \<Longrightarrow> \<exists>y. body i x = Some (Inr y) \<and> P y"
  shows "\<exists>b. for_each js body a = Some (Inr b) \<and> P b"
  using assms
proof (induction js arbitrary: a)
  case Nil
  then show ?case by simp
next
  case (Cons j js)
  from Cons.prems(2) [of j a] Cons.prems(1) obtain y where y: "body j a = Some (Inr y)" "P y"
    by auto
  from Cons.IH [OF y(2)] Cons.prems(2) obtain b where "for_each js body y = Some (Inr b)" "P b"
    by auto
  then show ?case using y(1) by auto
qed

lemma next_cell_unit:
  "next_cell q (1, 0) = (fst q + 1, snd q)" "next_cell q (- 1, 0) = (fst q - 1, snd q)"
  "next_cell q (0, 1) = (fst q, snd q + 1)" "next_cell q (0, - 1) = (fst q, snd q - 1)"
  by (simp_all add: next_cell_def nat_add_distrib nat_diff_distrib)

lemma next_cell_facts:
  assumes "inside s q" "d \<in> set directions"
  shows "(int (fst q) + fst d, int (snd q) + snd d)
      = (int (fst (next_cell q d)), int (snd (next_cell q d)))"
    and "in_board s (next_cell q d)"
    and "\<not> on_perimeter s (next_cell q d) \<Longrightarrow>
      inside s (next_cell q d) \<and> walk_dist s d (next_cell q d) < walk_dist s d q"
proof -
  have d: "d = (1, 0) \<or> d = (- 1, 0) \<or> d = (0, 1) \<or> d = (0, - 1)"
    using assms(2) by (auto simp: directions_def)
  have q: "1 \<le> fst q" "fst q + 1 < fst (board_size s)" "1 \<le> snd q" "snd q + 1 < snd (board_size s)"
    using assms(1) by (simp_all add: inside_def)
  show "(int (fst q) + fst d, int (snd q) + snd d)
      = (int (fst (next_cell q d)), int (snd (next_cell q d)))"
    using d q by (elim disjE) (simp_all add: next_cell_unit)
  show "in_board s (next_cell q d)"
    using d q by (elim disjE) (simp_all add: next_cell_unit in_board_def)
  show "inside s (next_cell q d) \<and> walk_dist s d (next_cell q d) < walk_dist s d q"
    if "\<not> on_perimeter s (next_cell q d)"
    using d
  proof (elim disjE)
    assume "d = (1, 0)"
    then show ?thesis using q that
      by (simp add: next_cell_unit inside_def on_perimeter_def walk_dist_def) linarith
  next
    assume "d = (- 1, 0)"
    then show ?thesis using q that
      by (simp add: next_cell_unit inside_def on_perimeter_def walk_dist_def) linarith
  next
    assume "d = (0, 1)"
    then show ?thesis using q that
      by (simp add: next_cell_unit inside_def on_perimeter_def walk_dist_def) linarith
  next
    assume "d = (0, - 1)"
    then show ?thesis using q that
      by (simp add: next_cell_unit inside_def on_perimeter_def walk_dist_def) linarith
  qed
qed

text \<open>
  On a board of fewer than \<open>2^24\<close> cells the floats of the walks are exact: converting a
  cell, stepping from a cell inside the perimeter and indexing a cell round nothing.
\<close>

lemma in_board_exact:
  assumes "in_board s p" "exact_board s"
  shows "int (fst p) < 2 ^ 24" "int (snd p) < 2 ^ 24" "int (fst (board_size s)) < 2 ^ 24"
    "int (snd p) * int (fst (board_size s)) + int (fst p) < 2 ^ 24"
proof -
  let ?w = "fst (board_size s)" and ?h = "snd (board_size s)"
  have p: "fst p < ?w" "snd p < ?h" using assms(1) by (simp_all add: in_board_def)
  have c: "?w * ?h < 2 ^ 24" using assms(2) by (simp add: exact_board_def)
  have "1 \<le> ?h" "1 \<le> ?w" using p by simp_all
  then have "?w * 1 \<le> ?w * ?h" "1 * ?h \<le> ?w * ?h"
    by (simp_all only: mult_le_mono2 mult_le_mono1)
  then have "?w \<le> ?w * ?h" "?h \<le> ?w * ?h" by (simp_all only: mult_1 mult_1_right)
  then have w: "?w < 2 ^ 24" and h: "?h < 2 ^ 24" using c by (blast intro: le_less_trans)+
  have i: "snd p * ?w + fst p < 2 ^ 24" using index_less [OF p] c by (rule less_trans)
  show "int (fst p) < 2 ^ 24" using p(1) w by simp
  show "int (snd p) < 2 ^ 24" using p(2) h by simp
  show "int ?w < 2 ^ 24" using w by simp
  have "int (snd p * ?w + fst p) < int (2 ^ 24)" using i by (simp only: of_nat_less_iff)
  then show "int (snd p) * int ?w + int (fst p) < 2 ^ 24" by simp
qed

lemma to_vec2_cell:
  assumes "in_board s p" "exact_board s"
  shows "to_vec2 p = (int (fst p), int (snd p))"
  using in_board_exact(1,2) [OF assms] by (simp add: to_vec2_def f32_exact)

lemma float_index_cell:
  assumes "in_board s p" "exact_board s"
  shows "float_index s (int (fst p), int (snd p)) = int (cell_index s p)"
proof -
  note b = in_board_exact [OF assms]
  have "int (snd p) * int (fst (board_size s)) \<le> int (snd p) * int (fst (board_size s)) + int (fst p)"
    by simp
  then have m: "\<bar>int (snd p) * int (fst (board_size s))\<bar> < 2 ^ 24"
    using b(4) by (simp add: abs_mult)
  have "\<bar>int (snd p) * int (fst (board_size s)) + int (fst p)\<bar> < 2 ^ 24"
    using b(4) by (simp only: abs_of_nat flip: of_nat_mult of_nat_add)
  then have "float_index s (int (fst p), int (snd p))
      = int (snd p) * int (fst (board_size s)) + int (fst p)"
    using m b(3) by (simp add: float_index_def f32_exact)
  also have "\<dots> = int (cell_index s p)"
    using cell_index_in_board [OF assms(1)] exact_small [OF assms(2)]
    by (simp add: small_board_def)
  finally show ?thesis .
qed

lemma float_step_cell:
  assumes "inside s q" "d \<in> set directions" "exact_board s"
  shows "float_step (int (fst q), int (snd q)) d
      = (int (fst (next_cell q d)), int (snd (next_cell q d)))"
proof -
  note nf = next_cell_facts(1,2) [OF assms(1,2)]
  from in_board_exact(1,2) [OF nf(2) assms(3)] show ?thesis
    using nf(1) by (simp add: float_step_def f32_exact)
qed

lemma walk_slide_step:
  assumes "float_index s (float_step at d) = int i"
    and "i < length (board_meshes s)" "i < length (goal_meshes s)"
  shows "walk_slide s d at =
     (if board_meshes s ! i \<noteq> Some wall_mesh then
        (if goal_meshes s ! i = Some goop_mesh then Some (Inr (float_step at d))
         else walk_slide s d (float_step at d))
      else Some (Inr at))"
  using assms by (subst walk_slide.simps) (simp add: at_float_index_def ok_def)

lemma walk_slide_returns:
  assumes "sized s" "perimeter_walls s" "d \<in> set directions" "inside s q" "exact_board s"
  shows "\<exists>p. walk_slide s d (int (fst q), int (snd q)) = Some (Inr (int (fst p), int (snd p)))
     \<and> inside s p \<and> (p = q \<or> \<not> is_wall s p)"
  using assms(4)
proof (induction "walk_dist s d q" arbitrary: q rule: less_induct)
  case less
  let ?n = "next_cell q d"
  let ?at = "(int (fst q), int (snd q))"
  let ?nx = "(int (fst ?n), int (snd ?n))"
  note nf = next_cell_facts [OF less.prems assms(3)]
  have e: "float_step ?at d = ?nx" by (rule float_step_cell [OF less.prems assms(3,5)])
  have fi: "float_index s (float_step ?at d) = int (cell_index s ?n)"
    unfolding e by (rule float_index_cell [OF nf(2) assms(5)])
  have idx: "cell_index s ?n < length (board_meshes s)" "cell_index s ?n < length (goal_meshes s)"
    using cell_index_in_board [OF nf(2)] assms(1) by (simp_all add: sized_def)
  note step = walk_slide_step [OF fi idx, unfolded e]
  show ?case
  proof (cases "is_wall s ?n")
    case True
    then have "walk_slide s d ?at = Some (Inr ?at)"
      unfolding step by (simp add: is_wall_def)
    then show ?thesis using less.prems by blast
  next
    case False
    then have "\<not> on_perimeter s ?n" using assms(2) nf(2) unfolding perimeter_walls_def by blast
    note ins = nf(3) [OF this]
    show ?thesis
    proof (cases "is_sticky s ?n")
      case True
      have "walk_slide s d ?at = Some (Inr ?nx)"
        unfolding step using False True by (simp add: is_wall_def is_sticky_def)
      then show ?thesis using ins False by blast
    next
      case nonsticky: False
      from less.hyps [of ?n] ins obtain p where
        p: "walk_slide s d ?nx = Some (Inr (int (fst p), int (snd p)))"
        "inside s p" "p = ?n \<or> \<not> is_wall s p" by blast
      have "walk_slide s d ?at = walk_slide s d ?nx"
        unfolding step using False nonsticky by (simp add: is_wall_def is_sticky_def)
      then show ?thesis using p False by metis
    qed
  qed
qed

lemma mt_only_preds:
  assumes "mt_only s s'"
  shows "sized s' = sized s" "perimeter_walls s' = perimeter_walls s"
    "is_wall s' = is_wall s" "is_sticky s' = is_sticky s" "inside s' = inside s"
    "in_board s' = in_board s" "small_board s' = small_board s" "visited s' = visited s"
    "exact_board s' = exact_board s"
  using mt_only_fields [OF assms]
  by (simp_all add: sized_def perimeter_walls_def is_wall_def is_sticky_def inside_def
      in_board_def on_perimeter_def small_board_def visited_def exact_board_def fun_eq_iff)

lemma walk_step_returns:
  assumes "sized s" "perimeter_walls s" "exact_board s" "walk_inv s start x"
  shows "\<exists>y. walk_step x = Some (Inr y) \<and> walk_inv s start y"
proof -
  obtain s' at c where x: "x = (s', at, c)" by (metis prod_cases3)
  from assms(4) [unfolded x walk_inv_def] obtain p where
    m: "mt_only s s'" and at: "at = (int (fst p), int (snd p))" and v: "visited s start p"
    and len: "length c = board_cells s"
    and cs: "\<forall>i < length c. 0 < c ! i \<longrightarrow> (\<exists>p. visited s start p \<and> cell_index s p = i)"
    by auto
  let ?s1 = "s'\<lparr>mt := stl (mt s')\<rparr>"
  let ?d = "directions ! (unat (shd (mt s')) mod 4)"
  have m1: "mt_only s ?s1" using m mt_only_trans mt_only_update by blast
  note f1 = mt_only_fields [OF m1]
  note p1 = mt_only_preds [OF m1]
  have d: "?d \<in> set directions" by (rule nth_mem) (simp add: directions_def)
  have "sized ?s1" "perimeter_walls ?s1" "inside ?s1 p" "exact_board ?s1"
    using assms(1,2,3) v unfolding p1 by (simp_all add: visited_def)
  from walk_slide_returns [OF this(1,2) d this(3,4)] obtain p' where
    w: "walk_slide ?s1 ?d at = Some (Inr (int (fst p'), int (snd p')))"
    and i: "inside s p'" and n: "p' = p \<or> \<not> is_wall s p'"
    unfolding at p1 by blast
  have v': "visited s start p'" using v i n by (auto simp: visited_def)
  note sm = sized_small [OF assms(1)]
  have fi: "float_index ?s1 (int (fst p'), int (snd p')) = int (cell_index s p')"
    unfolding f1 by (rule float_index_cell [OF inside_in_board [OF i] assms(3)])
  have lt: "cell_index s p' < length c"
    using cell_index_in_board [OF inside_in_board [OF i]] sm len
    by (simp add: small_board_def board_cells_small)
  let ?c = "c[cell_index s p' := c ! cell_index s p' + 1]"
  have run: "walk_step x = Some (Inr (?s1, (int (fst p'), int (snd p')), ?c))"
    unfolding x walk_step_def using w lt
    by (simp add: draw_mod_def draw_def and_then_def ok_def fi at_float_index_def)
  have "\<forall>i < length ?c. 0 < ?c ! i \<longrightarrow> (\<exists>p. visited s start p \<and> cell_index s p = i)"
  proof (intro allI impI)
    fix i assume i: "i < length ?c" "0 < ?c ! i"
    show "\<exists>p. visited s start p \<and> cell_index s p = i"
    proof (cases "i = cell_index s p'")
      case True
      then show ?thesis using v' by blast
    next
      case False
      then have "0 < c ! i" using i by simp
      then show ?thesis using cs i(1) by simp
    qed
  qed
  then have "walk_inv s start (?s1, (int (fst p'), int (snd p')), ?c)"
    unfolding walk_inv_def using m1 v' len by auto
  with run show ?thesis by blast
qed

lemma random_walk_returns:
  assumes "sized s" "perimeter_walls s" "exact_board s" "inside s start" "counts_inv s start x"
  shows "\<exists>y. random_walk start x = Some (Inr y) \<and> counts_inv s start y"
proof -
  obtain s' c where x: "x = (s', c)" by (metis prod.exhaust)
  have "\<exists>y. for_each [0 ..< 20] (\<lambda>step. walk_step)
      (s', to_vec2 start, c) = Some (Inr y) \<and> walk_inv s start y"
  proof (rule for_each_returns [where P = "walk_inv s start"])
    show "walk_inv s start (s', to_vec2 start, c)"
      using assms(4,5) unfolding x counts_inv_def walk_inv_def visited_def
        to_vec2_cell [OF inside_in_board [OF assms(4)] assms(3)] by auto
  next
    fix i x assume "walk_inv s start x"
    then show "\<exists>y. walk_step x = Some (Inr y) \<and> walk_inv s start y"
      by (rule walk_step_returns [OF assms(1,2,3)])
  qed
  then obtain y where y: "for_each [0 ..< 20] (\<lambda>step. walk_step)
      (s', to_vec2 start, c) = Some (Inr y)" "walk_inv s start y"
    by blast
  obtain s1 at1 c1 where e: "y = (s1, at1, c1)" by (metis prod_cases3)
  have "random_walk start x = Some (Inr (s1, c1))"
    unfolding x random_walk_def using y(1) e by (simp add: and_then_def ok_def)
  moreover have "counts_inv s start (s1, c1)"
    using y(2) unfolding e walk_inv_def counts_inv_def by auto
  ultimately show ?thesis by blast
qed

lemma random_walks_returns:
  assumes "sized s" "perimeter_walls s" "exact_board s" "inside s start"
  shows "\<exists>y. random_walks start s = Some (Inr y) \<and> counts_inv s start y"
proof -
  show ?thesis
    unfolding random_walks_def
  proof (rule for_each_returns [where P = "counts_inv s start"])
    show "counts_inv s start (s, replicate (board_cells s) 0)"
      by (simp add: counts_inv_def)
  next
    fix i x assume "counts_inv s start x"
    then show "\<exists>y. random_walk start x = Some (Inr y) \<and> counts_inv s start y"
      by (rule random_walk_returns [OF assms])
  qed
qed

lemma possible_cell_returns:
  assumes "sized s" "length c = board_cells s" "x < fst (board_size s)" "y < snd (board_size s)"
  shows "\<exists>cells'. possible_cell s c y x cells = Some (Inr cells')"
proof -
  have "in_board s (x, y)" using assms(3,4) by (simp add: in_board_def)
  from cell_index_in_board [OF this] assms(1,2)
  have "cell_index s (x, y) < length (goal_meshes s)" "cell_index s (x, y) < length c"
    by (simp_all add: sized_def board_cells_def)
  then show ?thesis
    by (simp add: possible_cell_def and_then_def at_index_def ok_def)
qed

lemma find_possible_cells_returns:
  assumes "sized s" "length c = board_cells s"
  shows "\<exists>cells. find_possible_cells s c = Some (Inr cells)"
proof -
  have "\<exists>cells. for_each [0 ..< snd (board_size s)]
      (\<lambda>y. for_each [0 ..< fst (board_size s)] (\<lambda>x. possible_cell s c y x)) []
        = Some (Inr cells) \<and> True"
  proof (rule for_each_returns [where P = "\<lambda>cells. True"])
    fix y cells assume y: "y \<in> set [0 ..< snd (board_size s)]"
    show "\<exists>cells'. for_each [0 ..< fst (board_size s)] (\<lambda>x. possible_cell s c y x) cells
        = Some (Inr cells') \<and> True"
    proof (rule for_each_returns [where P = "\<lambda>cells. True"])
      fix x cells assume "x \<in> set [0 ..< fst (board_size s)]"
      then show "\<exists>cells'. possible_cell s c y x cells = Some (Inr cells') \<and> True"
        using possible_cell_returns [OF assms, of x y cells] y by simp
    qed simp
  qed simp
  then show ?thesis by (simp add: find_possible_cells_def)
qed

lemma find_possible_cells_set:
  assumes "find_possible_cells s c = Some (Inr cells)"
  shows "set cells = {p. in_board s p \<and> candidate s c p}"
  using possible_rows [OF assms [unfolded find_possible_cells_def]]
  by (auto simp: in_board_def)

lemma extend_limit_le:
  "limit \<le> length cells \<Longrightarrow> extend_limit s c cells limit \<le> length cells"
proof (induction s c cells limit rule: extend_limit.induct)
  case (1 s c cells limit)
  then show ?case by (subst extend_limit.simps) auto
qed

lemma extend_limit_ge: "limit \<le> extend_limit s c cells limit"
proof (induction s c cells limit rule: extend_limit.induct)
  case (1 s c cells limit)
  show ?case
  proof (cases "limit + 1 < length cells
        \<and> count_at s c (cells ! limit) = count_at s c (cells ! (limit + 1))")
    case True
    then show ?thesis using 1 by (subst extend_limit.simps) auto
  next
    case False
    then show ?thesis by (subst extend_limit.simps) auto
  qed
qed

lemma pick_goal_returns:
  assumes "cells \<noteq> []"
  shows "\<exists>g. pick_goal s c cells = Some (Inr (g, s\<lparr>mt := stl (mt s)\<rparr>)) \<and> g \<in> set cells"
proof -
  let ?sorted = "sort_key (count_at s c) cells"
  let ?l0 = "max 1 (length ?sorted div 4)"
  let ?limit = "extend_limit s c ?sorted ?l0"
  let ?r = "unat (shd (mt s)) mod ?limit"
  have n: "0 < length ?sorted" using assms by simp
  have "length ?sorted div 4 \<le> length ?sorted" by simp
  with n have "?l0 \<le> length ?sorted" by linarith
  then have le: "?limit \<le> length ?sorted" by (rule extend_limit_le)
  have "1 \<le> ?limit" using extend_limit_ge [of ?l0 s c ?sorted] by simp
  then have r: "?r < length ?sorted" using le
    by (metis less_le_trans mod_less_divisor not_one_le_zero neq0_conv)
  then have "pick_goal s c cells = Some (Inr (?sorted ! ?r, s\<lparr>mt := stl (mt s)\<rparr>))"
    using \<open>1 \<le> ?limit\<close>
    by (simp add: pick_goal_def Let_def draw_mod_def draw_def at_index_def and_then_def ok_def)
  moreover have "?sorted ! ?r \<in> set cells" using r by (metis nth_mem set_sort)
  ultimately show ?thesis by blast
qed

lemma place_goal_returns:
  assumes "sized s" "perimeter_walls s" "exact_board s" "inside s start"
  shows "\<exists>placed s'. place_goal start s = Some (Inr (placed, s'))
     \<and> (\<forall>g. placed = Some g \<longrightarrow> visited s start g \<and> g \<noteq> player s)"
proof -
  from random_walks_returns [OF assms] obtain s1 c where
    w: "random_walks start s = Some (Inr (s1, c))" and inv: "counts_inv s start (s1, c)"
    by (metis prod.exhaust)
  have m: "mt_only s s1" and len: "length c = board_cells s"
    and vis: "\<forall>i < length c. 0 < c ! i \<longrightarrow> (\<exists>p. visited s start p \<and> cell_index s p = i)"
    using inv by (simp_all add: counts_inv_def)
  note f = mt_only_fields [OF m]
  note p = mt_only_preds [OF m]
  have s1: "sized s1" using assms(1) p by simp
  have "length c = board_cells s1" using len f(8) by simp
  from find_possible_cells_returns [OF s1 this] obtain cells where
    c: "find_possible_cells s1 c = Some (Inr cells)" by blast
  note cs = find_possible_cells_set [OF c]
  show ?thesis
  proof (cases "cells = []")
    case True
    then have "place_goal start s = Some (Inr (None, s1))"
      using w c by (simp add: place_goal_def and_then_def ok_def)
    then show ?thesis by simp
  next
    case False
    from pick_goal_returns [OF False] obtain g where
      g: "pick_goal s1 c cells = Some (Inr (g, s1\<lparr>mt := stl (mt s1)\<rparr>))" "g \<in> set cells"
      by blast
    let ?s2 = "s1\<lparr>mt := stl (mt s1)\<rparr>"
    have cand: "in_board s g" "candidate s1 c g" using g(2) cs p by auto
    note sm = sized_small [OF assms(1)]
    have lt: "cell_index s g < fst (board_size s) * snd (board_size s)"
      using cell_index_in_board [OF cand(1)] sm by (simp add: small_board_def)
    have idx: "cell_index ?s2 g < length (goal_meshes ?s2)"
      "goal_meshes ?s2 ! cell_index ?s2 g = None"
      using lt cand(2) assms(1) f by (simp_all add: candidate_def sized_def cell_index_def)
    then obtain s3 where pc: "place_checkpoint g ?s2 = Some (Inr s3)"
      by (simp add: place_checkpoint_Inr)
    have run: "place_goal start s = Some (Inr (Some g, s3))"
      using w c False g(1) pc by (simp add: place_goal_def and_then_def ok_def)
    have "0 < c ! cell_index s g" using cand(2) f by (simp add: candidate_def)
    with vis lt len sm obtain q where q: "visited s start q" "cell_index s q = cell_index s g"
      by (auto simp: board_cells_small)
    then have "q = g"
      using cell_index_inj [of s q g] cand(1) sm
      by (simp add: visited_def inside_in_board small_board_def)
    then have "visited s start g" using q(1) by simp
    moreover have "g \<noteq> player s" using cand(2) f by (simp add: candidate_def)
    ultimately show ?thesis using run by auto
  qed
qed

lemma place_goal_keeps:
  assumes "place_goal start s = Some (Inr (placed, s'))" "sized s" "perimeter_walls s"
  shows "sized s'" "perimeter_walls s'" "is_wall s' = is_wall s" "inside s' = inside s"
    "exact_board s' = exact_board s"
proof -
  note r = place_goal_result [OF assms(1)]
  note fs = same_frame_simps [OF r(1)]
  have len: "length (goal_meshes s') = length (goal_meshes s)"
  proof (cases placed)
    case None
    then show ?thesis using r(3) by simp
  next
    case (Some g)
    then show ?thesis using r(4) [of g] by simp
  qed
  show "sized s'" using assms(2) r(2) len fs(8) by (simp add: sized_def)
  show "perimeter_walls s'"
    using assms(3) fs(8) r(2) by (rule perimeter_walls_kept [OF _ _ walls_kept_same])
  show "is_wall s' = is_wall s" using r(2) fs(1) by (simp add: is_wall_def fun_eq_iff)
  show "inside s' = inside s" by (rule fs(3))
  show "exact_board s' = exact_board s" by (rule fs(10))
qed

lemma place_goals_returns:
  assumes "sized s" "perimeter_walls s" "exact_board s" "inside s prev_goal"
    and "prev_goal = player s \<or> \<not> is_wall s prev_goal"
  shows "\<exists>goals' prev_goal' s'. place_goals goals prev_goal s = Some (Inr (goals', prev_goal', s'))
     \<and> (goals < goals' \<longrightarrow> inside s prev_goal' \<and> \<not> is_wall s prev_goal')"
  using assms
proof (induction goals prev_goal s rule: place_goals.induct)
  case (1 goals prev_goal s)
  show ?case
  proof (cases "goals < 2")
    case False
    then show ?thesis by (subst place_goals.simps) simp
  next
    case True
    from place_goal_returns [OF "1.prems"(1-4)] obtain placed s1 where
      p: "place_goal prev_goal s = Some (Inr (placed, s1))"
      and v: "\<forall>g. placed = Some g \<longrightarrow> visited s prev_goal g \<and> g \<noteq> player s"
      by blast
    show ?thesis
    proof (cases placed)
      case None
      then show ?thesis using True p by (subst place_goals.simps) (simp add: and_then_def ok_def)
    next
      case (Some g)
      note k = place_goal_keeps [OF p "1.prems"(1,2)]
      have g: "inside s g" "\<not> is_wall s g"
        using v Some "1.prems"(5) by (auto simp: visited_def)
      have "\<exists>goals' prev_goal' s'. place_goals (goals + 1) g s1 = Some (Inr (goals', prev_goal', s'))
         \<and> (goals + 1 < goals' \<longrightarrow> inside s1 prev_goal' \<and> \<not> is_wall s1 prev_goal')"
        using "1.IH" [OF True Some k(1,2)] g k(3,4,5) "1.prems"(3) by simp
      then obtain goals' prev_goal' s' where
        r: "place_goals (goals + 1) g s1 = Some (Inr (goals', prev_goal', s'))"
        "goals + 1 < goals' \<longrightarrow> inside s prev_goal' \<and> \<not> is_wall s prev_goal'"
        using k(3,4) by auto
      note pr = place_goals_result [OF r(1), unfolded placed_goals_def, simplified]
      have run: "place_goals goals prev_goal s = Some (Inr (goals', prev_goal', s'))"
        using True p Some r(1) by (subst place_goals.simps) (simp add: and_then_def)
      have "inside s prev_goal' \<and> \<not> is_wall s prev_goal'"
      proof (cases "goals + 1 < goals'")
        case True
        then show ?thesis using r(2) by simp
      next
        case False
        then have "goals' = goals + 1" using pr by simp
        then have "prev_goal' = g" using pr by simp
        then show ?thesis using g by simp
      qed
      then show ?thesis using run by blast
    qed
  qed
qed

lemma place_wall_returns:
  assumes "sized s" "inside s (player s)"
  shows "\<exists>s'. place_wall s = Some (Inr s')"
proof -
  let ?w = "fst (board_size s)" and ?h = "snd (board_size s)"
  have wh: "3 \<le> ?w" "3 \<le> ?h" using assms(2) by (auto simp: inside_def)
  have small: "?w * ?h < 2 ^ 32" using assms(1) by (simp add: sized_def)
  have "?w \<le> ?w * ?h" "?h \<le> ?w * ?h" using wh by simp_all
  then have b: "?w < 2 ^ 32" "?h < 2 ^ 32" using small by linarith+
  have m: "u32 (int ?w - 2) \<noteq> 0" "u32 (int ?h - 2) \<noteq> 0"
    using wh b by (simp_all add: u32_small nat_diff_distrib)
  then obtain pos s1 where p: "random_board_position s = Some (Inr (pos, s1))"
    by (simp add: random_board_position_def draw_mod_def draw_def and_then_def ok_def)
  note f = mt_only_fields [OF random_board_position_mt [OF p]]
  have "inside s pos" using random_board_position_inside [OF p wh small] .
  from cell_index_in_board [OF inside_in_board [OF this] small] assms(1)
  have "cell_index s1 pos < length (board_meshes s1)" using f by (simp add: sized_def)
  then show ?thesis using p by (simp add: place_wall_def and_then_def ok_def set_index_def)
qed

lemma place_goop_returns:
  assumes "sized s" "inside s (player s)"
  shows "\<exists>s'. place_goop s = Some (Inr s')"
proof -
  let ?w = "fst (board_size s)" and ?h = "snd (board_size s)"
  have wh: "3 \<le> ?w" "3 \<le> ?h" using assms(2) by (auto simp: inside_def)
  have small: "?w * ?h < 2 ^ 32" using assms(1) by (simp add: sized_def)
  have "?w \<le> ?w * ?h" "?h \<le> ?w * ?h" using wh by simp_all
  then have b: "?w < 2 ^ 32" "?h < 2 ^ 32" using small by linarith+
  have m: "u32 (int ?w - 2) \<noteq> 0" "u32 (int ?h - 2) \<noteq> 0"
    using wh b by (simp_all add: u32_small nat_diff_distrib)
  then obtain pos s1 where p: "random_board_position s = Some (Inr (pos, s1))"
    by (simp add: random_board_position_def draw_mod_def draw_def and_then_def ok_def)
  note f = mt_only_fields [OF random_board_position_mt [OF p]]
  have "inside s pos" using random_board_position_inside [OF p wh small] .
  from cell_index_in_board [OF inside_in_board [OF this] small] assms(1)
  have "cell_index s1 pos < length (board_meshes s1)" "cell_index s1 pos < length (goal_meshes s1)"
    using f by (simp_all add: sized_def)
  then show ?thesis
    using p by (simp add: place_goop_def and_then_def ok_def set_index_def at_index_def)
qed

lemma sized_kept:
  assumes "sized s" "same_frame s s'" "length (board_meshes s') = length (board_meshes s)"
    "length (goal_meshes s') = length (goal_meshes s)"
  shows "sized s'"
  using assms by (simp add: sized_def same_frame_def)

lemma place_walls_returns:
  assumes "sized s" "inside s (player s)"
  shows "\<exists>s'. place_walls s = Some (Inr s')"
proof -
  let ?P = "\<lambda>x. sized x \<and> same_frame s x"
  have "\<exists>s'. for_each [0 ..< unat (shd (mt s)) mod 8 + 2] (\<lambda>w. place_wall)
      (s\<lparr>mt := stl (mt s)\<rparr>) = Some (Inr s') \<and> ?P s'"
  proof (rule for_each_returns [where P = ?P])
    show "?P (s\<lparr>mt := stl (mt s)\<rparr>)"
      using assms(1) by (simp add: sized_def same_frame_def)
  next
    fix i x assume x: "?P x"
    then have "inside x (player x)" using assms(2) same_frame_simps(3,7) [of s x] by simp
    from place_wall_returns [OF conjunct1 [OF x] this] obtain y where
      y: "place_wall x = Some (Inr y)" by blast
    note r = place_wall_result [OF y]
    have "length (board_meshes y) = length (board_meshes x)" using r(3) by (simp add: walls_kept_def)
    then have "sized y" using r(2) by (intro sized_kept [OF conjunct1 [OF x] r(1)]) simp_all
    moreover have "same_frame s y" using x r(1) by (blast intro: same_frame_trans)
    ultimately show "\<exists>y. place_wall x = Some (Inr y) \<and> ?P y"
      using y by blast
  qed
  then obtain s' where "for_each [0 ..< unat (shd (mt s)) mod 8 + 2] (\<lambda>w. place_wall)
      (s\<lparr>mt := stl (mt s)\<rparr>) = Some (Inr s')" by blast
  then show ?thesis by (simp add: place_walls_def draw_mod_def draw_def and_then_def ok_def)
qed

lemma place_goops_returns:
  assumes "sized s" "inside s (player s)"
  shows "\<exists>s'. place_goops s = Some (Inr s')"
proof -
  let ?P = "\<lambda>x. sized x \<and> same_frame s x"
  have "\<exists>s'. for_each [0 ..< unat (shd (mt s)) mod 4] (\<lambda>g. place_goop)
      (s\<lparr>mt := stl (mt s)\<rparr>) = Some (Inr s') \<and> ?P s'"
  proof (rule for_each_returns [where P = ?P])
    show "?P (s\<lparr>mt := stl (mt s)\<rparr>)"
      using assms(1) by (simp add: sized_def same_frame_def)
  next
    fix i x assume x: "?P x"
    then have "inside x (player x)" using assms(2) same_frame_simps(3,7) [of s x] by simp
    from place_goop_returns [OF conjunct1 [OF x] this] obtain y where
      y: "place_goop x = Some (Inr y)" by blast
    note r = place_goop_result [OF y]
    have "length (board_meshes y) = length (board_meshes x)" using r(2) by simp
    then have "sized y" using r(3) by (intro sized_kept [OF conjunct1 [OF x] r(1)]) simp_all
    moreover have "same_frame s y" using x r(1) by (blast intro: same_frame_trans)
    ultimately show "\<exists>y. place_goop x = Some (Inr y) \<and> ?P y"
      using y by blast
  qed
  then obtain s' where "for_each [0 ..< unat (shd (mt s)) mod 4] (\<lambda>g. place_goop)
      (s\<lparr>mt := stl (mt s)\<rparr>) = Some (Inr s')" by blast
  then show ?thesis by (simp add: place_goops_def draw_mod_def draw_def and_then_def ok_def)
qed

lemma remove_everything_perimeter:
  assumes "small_board s" "remove_everything s = Some (Inr s')"
  shows "perimeter_walls s'" "sized s'" "same_frame s s'"
    "inside s (player s) \<Longrightarrow> \<not> is_wall s' (player s)"
proof -
  from remove_everything_result [OF assms(1)] assms(2)
  have r: "same_frame s s'" "sized s'" "\<And>p. in_board s p \<Longrightarrow>
          board_meshes s' ! cell_index s p = Some (if inside s p then floor_mesh else wall_mesh)"
    by auto
  note fs = same_frame_simps [OF r(1)]
  show "sized s'" "same_frame s s'" using r by simp_all
  show "perimeter_walls s'"
    unfolding perimeter_walls_def
  proof (intro allI impI)
    fix p assume "in_board s' p \<and> on_perimeter s' p"
    then have "in_board s p" "\<not> inside s p" using fs inside_not_perimeter [of s p] by auto
    then show "is_wall s' p" using r(3) [of p] fs by (simp add: is_wall_def)
  qed
  show "\<not> is_wall s' (player s)" if "inside s (player s)"
    using r(3) [OF inside_in_board [OF that]] that fs by (simp add: is_wall_def)
qed

lemma generate_returns:
  assumes "exact_board s" "inside s (player s)"
  shows "\<exists>goals prev_goal s4. generate s = Some (Inr (goals, prev_goal, s4))
     \<and> (1 \<le> goals \<longrightarrow> inside s prev_goal \<and> \<not> is_wall s4 prev_goal)"
proof -
  note sm = exact_small [OF assms(1)]
  from remove_everything_result [OF sm] obtain s1 where
    a: "remove_everything s = Some (Inr s1)" by blast
  note ra = remove_everything_perimeter [OF sm a]
  note f1 = same_frame_simps [OF ra(3)]
  have i1: "inside s1 (player s1)" using assms(2) f1 by simp
  from place_walls_returns [OF ra(2) i1] obtain s2 where
    b: "place_walls s1 = Some (Inr s2)" by blast
  note rb = place_walls_result [OF b]
  note f2 = same_frame_simps [OF rb(1)]
  have "length (board_meshes s2) = length (board_meshes s1)" using rb(3) by (simp add: walls_kept_def)
  then have z2: "sized s2" using rb(2) by (intro sized_kept [OF ra(2) rb(1)]) simp_all
  have p2: "perimeter_walls s2"
    using ra(1) f2(8) rb(3) by (rule perimeter_walls_kept)
  have i2: "inside s2 (player s2)" using i1 f2 by simp
  have w2: "\<not> is_wall s2 (player s2)"
    using rb(4) ra(4) assms sm f1 f2 by (simp add: is_wall_def)
  from place_goops_returns [OF z2 i2] obtain s3 where
    c: "place_goops s2 = Some (Inr s3)" by blast
  note rc = place_goops_result [OF c]
  note f3 = same_frame_simps [OF rc(1)]
  have z3: "sized s3" using rc(2,3) by (intro sized_kept [OF z2 rc(1)]) simp_all
  have p3: "perimeter_walls s3"
    using p2 f3(8) by (rule perimeter_walls_kept) (simp add: walls_kept_same rc(2))
  have i3: "inside s3 (player s3)" using i2 f3 by simp
  have w3: "is_wall s3 = is_wall s2" using rc(2) f3(1) by (simp add: is_wall_def fun_eq_iff)
  have e3: "exact_board s3" using assms(1) f1(10) f2(10) f3(10) by simp
  from place_goals_returns [OF z3 p3 e3 i3, of 0] obtain goals prev_goal s4 where
    d: "place_goals 0 (player s3) s3 = Some (Inr (goals, prev_goal, s4))"
    and g: "0 < goals \<longrightarrow> inside s3 prev_goal \<and> \<not> is_wall s3 prev_goal"
    by auto
  note rd = place_goals_result [OF d, unfolded placed_goals_def, simplified]
  have "is_wall s4 = is_wall s3"
    using rd same_frame_simps(1) [of s3 s4] by (simp add: is_wall_def fun_eq_iff)
  moreover have "inside s3 = inside s" using f1 f2 f3 by simp
  moreover have "generate s = Some (Inr (goals, prev_goal, s4))"
    using a b c d by (simp add: generate_def and_then_def)
  ultimately show ?thesis using g by auto
qed

section \<open>The retries\<close>

lemma retry_Suc:
  assumes "retry (Suc n) s = Some t"
  shows "\<exists>prev_goal s1. generate s = Some (Inr (0, prev_goal, s1)) \<and> retry n s1 = Some t"
  using assms by (auto split: option.splits sum.splits if_splits)

lemma retry_frame: "retry n s = Some t \<Longrightarrow> same_frame s t"
proof (induction n arbitrary: s)
  case 0
  then show ?case by simp
next
  case (Suc n)
  from retry_Suc [OF Suc.prems] obtain prev_goal s1 where
    g: "generate s = Some (Inr (0, prev_goal, s1))" and r: "retry n s1 = Some t" by blast
  from generate_result(1) [OF g] Suc.IH [OF r] show ?case by (rule same_frame_trans)
qed

lemma create_board_retry: "retry n s = Some t \<Longrightarrow> create_board s = create_board t"
proof (induction n arbitrary: s)
  case 0
  then show ?case by simp
next
  case (Suc n)
  from retry_Suc [OF Suc.prems] obtain prev_goal s1 where
    g: "generate s = Some (Inr (0, prev_goal, s1))" and r: "retry n s1 = Some t" by blast
  have "create_board s = create_board s1" using g by (subst create_board.simps) simp
  then show ?case using Suc.IH [OF r] by simp
qed

lemma create_board_chain:
  assumes "create_board s = Some r"
  shows "\<exists>n t. retry n s = Some t
     \<and> ((\<exists>e. generate t = Some (Inl e) \<and> r = Inl e)
        \<or> (\<exists>goals prev_goal t1. generate t = Some (Inr (goals, prev_goal, t1)) \<and> 0 < goals
             \<and> main_goal prev_goal t1 = Some r))"
proof (rule create_board.raw_induct [where P = "\<lambda>s r. \<exists>n t. retry n s = Some t
     \<and> ((\<exists>e. generate t = Some (Inl e) \<and> r = Inl e)
        \<or> (\<exists>goals prev_goal t1. generate t = Some (Inr (goals, prev_goal, t1)) \<and> 0 < goals
             \<and> main_goal prev_goal t1 = Some r))", OF _ assms])
  fix cb s r
  assume ih: "\<And>s r. cb s = Some r \<Longrightarrow> \<exists>n t. retry n s = Some t
     \<and> ((\<exists>e. generate t = Some (Inl e) \<and> r = Inl e)
        \<or> (\<exists>goals prev_goal t1. generate t = Some (Inr (goals, prev_goal, t1)) \<and> 0 < goals
             \<and> main_goal prev_goal t1 = Some r))"
    and eq: "(case generate s of
       None \<Rightarrow> None
     | Some (Inl e) \<Rightarrow> Some (Inl e)
     | Some (Inr (goals, prev_goal, s1)) \<Rightarrow>
        if goals = 0 then cb s1 else main_goal prev_goal s1) = Some r"
  let ?Q = "\<lambda>s n t. retry n s = Some t
     \<and> ((\<exists>e. generate t = Some (Inl e) \<and> r = Inl e)
        \<or> (\<exists>goals prev_goal t1. generate t = Some (Inr (goals, prev_goal, t1)) \<and> 0 < goals
             \<and> main_goal prev_goal t1 = Some r))"
  show "\<exists>n t. ?Q s n t"
  proof (cases "generate s")
    case None
    then show ?thesis using eq by simp
  next
    case (Some a)
    show ?thesis
    proof (cases a)
      case (Inl e)
      then have "?Q s 0 s" using eq Some by simp
      then show ?thesis by blast
    next
      case (Inr x)
      obtain goals prev_goal s1 where x: "x = (goals, prev_goal, s1)" by (metis prod_cases3)
      note g = Some [unfolded Inr x]
      show ?thesis
      proof (cases "goals = 0")
        case True
        then have "cb s1 = Some r" using eq g by simp
        from ih [OF this] obtain n t where q: "?Q s1 n t" by blast
        have "retry (Suc n) s = Some t" using g True q by simp
        then have "?Q s (Suc n) t" using q by blast
        then show ?thesis by blast
      next
        case False
        then have "main_goal prev_goal s1 = Some r" using eq g by simp
        then have "?Q s 0 s" using g False by simp
        then show ?thesis by blast
      qed
    qed
  qed
qed

section \<open>Walks that go to and fro\<close>

lemma stream_game5_fields [simp]:
  "board_size (stream_game5 m p b g) = (5, 5)" "board_meshes (stream_game5 m p b g) = b"
  "goal_meshes (stream_game5 m p b g) = g" "player (stream_game5 m p b g) = p"
  "mt (stream_game5 m p b g) = m"
  "(stream_game5 m p b g)\<lparr>mt := m'\<rparr> = stream_game5 m' p b g"
  "(stream_game5 m p b g)\<lparr>board_meshes := b'\<rparr> = stream_game5 m p b' g"
  "(stream_game5 m p b g)\<lparr>goal_meshes := g'\<rparr> = stream_game5 m p b g'"
  by (simp_all add: stream_game5_def)

lemma stream_game5_index [simp]:
  "x < 5 \<Longrightarrow> y < 5 \<Longrightarrow> cell_index (stream_game5 m p b g) (x, y) = y * 5 + x"
  "board_cells (stream_game5 m p b g) = 25"
  by (simp_all add: cell_index_def board_cells_def)

lemma stream_game5_float_index [simp]:
  assumes "0 \<le> i" "i < 5" "0 \<le> j" "j < 5"
  shows "float_index (stream_game5 m p b g) (i, j) = j * 5 + i"
proof -
  have "\<bar>j * 5\<bar> < 2 ^ 24" "\<bar>j * 5 + i\<bar> < 2 ^ 24" using assms by simp_all
  then show ?thesis by (simp add: float_index_def f32_exact)
qed

lemma list_update_twice:
  "i \<noteq> j \<Longrightarrow> c[i := a, j := b, i := a'] = c[i := a', j := b]"
  by (simp add: list_update_swap [of i j])

lemma walk_step_eval:
  assumes "s\<lparr>mt := stl (mt s)\<rparr> = s1"
    and "walk_slide s1 (directions ! (unat (shd (mt s)) mod 4)) at = Some (Inr at')"
    and "float_index s1 at' = int i" "i < length c"
  shows "walk_step (s, at, c) = Some (Inr (s1, at', c[i := c ! i + 1]))"
  using assms(2-)
  by (simp add: walk_step_def draw_mod_def draw_def and_then_def ok_def at_float_index_def assms(1))

lemma walk_steps_alternate:
  fixes sa sb :: game
  assumes ab: "sa\<lparr>mt := stl (mt sa)\<rparr> = sb" and ba: "sb\<lparr>mt := stl (mt sb)\<rparr> = sa"
    and start: "walk_slide sb (directions ! (unat (shd (mt sa)) mod 4)) a0 = Some (Inr a1)"
    and fro: "walk_slide sb (directions ! (unat (shd (mt sa)) mod 4)) a2 = Some (Inr a1)"
    and to: "walk_slide sa (directions ! (unat (shd (mt sb)) mod 4)) a1 = Some (Inr a2)"
    and idx: "float_index sb a1 = int i1" "float_index sa a2 = int i2"
      "i1 < length c" "i2 < length c" "i1 \<noteq> i2"
  shows "for_each [0 ..< n] (\<lambda>step. walk_step) (sa, a0, c)
     = Some (Inr (if even n then sa else sb,
                  if n = 0 then a0 else if odd n then a1 else a2,
                  c[i1 := c ! i1 + (n + 1) div 2, i2 := c ! i2 + n div 2]))"
proof -
  let ?c = "\<lambda>k. c[i1 := c ! i1 + (k + 1) div 2, i2 := c ! i2 + k div 2]"
  let ?f = "\<lambda>k. (if even k then sa else sb, if k = 0 then a0 else if odd k then a1 else a2, ?c k)"
  have "for_each [0 ..< n] (\<lambda>step. walk_step) (?f 0) = Some (Inr (?f (length [0 ..< n])))"
  proof (rule for_each_iterate)
    fix k assume "k < length [0 ..< n]"
    show "walk_step (?f k) = Some (Inr (?f (Suc k)))"
    proof (cases "even k")
      case True
      then have e: "(Suc k + 1) div 2 = (k + 1) div 2 + 1" "Suc k div 2 = k div 2"
        by (auto elim!: evenE)
      have s: "walk_slide sb (directions ! (unat (shd (mt sa)) mod 4))
          (if k = 0 then a0 else a2) = Some (Inr a1)"
        using start fro by simp
      have "walk_step (sa, if k = 0 then a0 else a2, ?c k)
          = Some (Inr (sb, a1, (?c k)[i1 := ?c k ! i1 + 1]))"
        using idx by (intro walk_step_eval [OF ab s]) simp_all
      moreover have "(?c k)[i1 := ?c k ! i1 + 1] = ?c (Suc k)"
        using idx unfolding e by (simp add: list_update_twice)
      ultimately show ?thesis using True by (cases "k = 0") simp_all
    next
      case False
      then have e: "(Suc k + 1) div 2 = (k + 1) div 2" "Suc k div 2 = k div 2 + 1"
        by (auto elim!: oddE)
      have k0: "k \<noteq> 0" using False by (cases k) auto
      have "walk_step (sb, a1, ?c k) = Some (Inr (sa, a2, (?c k)[i2 := ?c k ! i2 + 1]))"
        using idx by (intro walk_step_eval [OF ba to]) simp_all
      moreover have "(?c k)[i2 := ?c k ! i2 + 1] = ?c (Suc k)"
        using idx unfolding e by simp
      ultimately show ?thesis using False k0 by simp
    qed
  qed
  moreover have "c[i1 := c ! i1, i2 := c ! i2] = c" by simp
  ultimately show ?thesis by simp
qed

lemma random_walks_alternate:
  fixes sa sb :: game
  assumes ab: "sa\<lparr>mt := stl (mt sa)\<rparr> = sb" and ba: "sb\<lparr>mt := stl (mt sb)\<rparr> = sa"
    and start: "walk_slide sb (directions ! (unat (shd (mt sa)) mod 4))
        (to_vec2 prev_goal) = Some (Inr a1)"
    and fro: "walk_slide sb (directions ! (unat (shd (mt sa)) mod 4)) a2 = Some (Inr a1)"
    and to: "walk_slide sa (directions ! (unat (shd (mt sb)) mod 4)) a1 = Some (Inr a2)"
    and idx: "float_index sb a1 = int i1" "float_index sa a2 = int i2"
      "i1 < board_cells sa" "i2 < board_cells sa" "i1 \<noteq> i2"
  shows "random_walks prev_goal sa
     = Some (Inr (sa, (replicate (board_cells sa) 0)[i1 := 1000, i2 := 1000]))"
proof -
  let ?z = "replicate (board_cells sa) (0::nat)"
  let ?f = "\<lambda>j. (sa, ?z[i1 := 10 * j, i2 := 10 * j])"
  have "for_each [0 ..< 100] (\<lambda>iter. random_walk prev_goal) (?f 0)
      = Some (Inr (?f (length [0 ..< 100])))"
  proof (rule for_each_iterate)
    fix j assume "j < length [0 ..< 100]"
    let ?c = "?z[i1 := 10 * j, i2 := 10 * j]"
    have "for_each [0 ..< 20] (\<lambda>step. walk_step)
        (sa, to_vec2 prev_goal, ?c)
      = Some (Inr (if even (20::nat) then sa else sb,
          if (20::nat) = 0 then to_vec2 prev_goal
          else if odd (20::nat) then a1 else a2,
          ?c[i1 := ?c ! i1 + (20 + 1) div 2, i2 := ?c ! i2 + 20 div 2]))"
      using idx by (intro walk_steps_alternate [OF ab ba start fro to]) simp_all
    moreover have "?c[i1 := ?c ! i1 + (20 + 1) div 2, i2 := ?c ! i2 + 20 div 2]
        = ?z[i1 := 10 * Suc j, i2 := 10 * Suc j]"
      using idx by (simp add: list_update_swap [of i1 i2] add.commute)
    ultimately show "random_walk prev_goal (?f j) = Some (Inr (?f (Suc j)))"
      by (simp add: random_walk_def and_then_def ok_def)
  qed
  moreover have "?z[i1 := 0, i2 := 0] = ?z"
    using idx by (simp add: list_eq_iff_nth_eq nth_list_update)
  ultimately show ?thesis by (simp add: random_walks_def)
qed

lemma remove_everything_stream_game5:
  "remove_everything (stream_game5 m p b g)
     = Some (Inr (stream_game5 m p open_board (replicate 25 None)))"
  unfolding remove_everything_def
  by (simp add: upt_5 replicate_25 set_index_def and_then_def ok_def open_board_def)

lemma place_wall_skipped:
  "place_wall (stream_game5 (1 ## 0 ## m) (2, 1) b g) = Some (Inr (stream_game5 m (2, 1) b g))"
  by (simp add: place_wall_def random_board_position_def draw_mod_def draw_def and_then_def ok_def)

lemma place_walls_skipped:
  "place_walls (stream_game5 (0 ## 1 ## 0 ## 1 ## 0 ## m) (2, 1) b g)
     = Some (Inr (stream_game5 m (2, 1) b g))"
proof -
  have "[0 ..< 2] = [0, Suc 0]" by (simp add: upt_rec)
  then show ?thesis
    by (simp add: place_walls_def draw_mod_def draw_def and_then_def ok_def
        place_wall_skipped [unfolded One_nat_def])
qed

lemma place_goops_none:
  "place_goops (stream_game5 (0 ## m) p b g) = Some (Inr (stream_game5 m p b g))"
  by (simp add: place_goops_def draw_mod_def draw_def and_then_def ok_def)

lemma cycle_10 [simp]:
  "shd (cycle [1, 0 :: 32 word]) = 1" "stl (cycle [1, 0 :: 32 word]) = cycle [0, 1]"
  "shd (cycle [0, 1 :: 32 word]) = 0" "stl (cycle [0, 1 :: 32 word]) = cycle [1, 0]"
  by simp_all

lemma open_board_row [simp]:
  "open_board ! 6 = Some floor_mesh" "open_board ! 7 = Some floor_mesh"
  "open_board ! 8 = Some floor_mesh" "open_board ! 9 = Some wall_mesh"
  by (simp_all add: open_board_def)

lemma walk_slide_right:
  assumes "length g = 25" "g ! 7 \<noteq> Some goop_mesh" "g ! 8 \<noteq> Some goop_mesh"
  shows "walk_slide (stream_game5 m p open_board g) (1, 0) (3, 1) = Some (Inr (3, 1))"
    "walk_slide (stream_game5 m p open_board g) (1, 0) (2, 1) = Some (Inr (3, 1))"
    "walk_slide (stream_game5 m p open_board g) (1, 0) (1, 1) = Some (Inr (3, 1))"
proof -
  show a: "walk_slide (stream_game5 m p open_board g) (1, 0) (3, 1) = Some (Inr (3, 1))"
    by (subst walk_slide.simps) (simp add: float_step_def at_float_index_def ok_def)
  show b: "walk_slide (stream_game5 m p open_board g) (1, 0) (2, 1) = Some (Inr (3, 1))"
    using assms by (subst walk_slide.simps) (simp add: float_step_def at_float_index_def ok_def a)
  show "walk_slide (stream_game5 m p open_board g) (1, 0) (1, 1) = Some (Inr (3, 1))"
    using assms by (subst walk_slide.simps) (simp add: float_step_def at_float_index_def ok_def b)
qed

lemma walk_slide_left:
  assumes "length g = 25" "g ! 7 \<noteq> Some goop_mesh" "g ! 6 \<noteq> Some goop_mesh"
  shows "walk_slide (stream_game5 m p open_board g) (- 1, 0) (1, 1) = Some (Inr (1, 1))"
    "walk_slide (stream_game5 m p open_board g) (- 1, 0) (2, 1) = Some (Inr (1, 1))"
    "walk_slide (stream_game5 m p open_board g) (- 1, 0) (3, 1) = Some (Inr (1, 1))"
proof -
  show a: "walk_slide (stream_game5 m p open_board g) (- 1, 0) (1, 1) = Some (Inr (1, 1))"
    by (subst walk_slide.simps) (simp add: float_step_def at_float_index_def ok_def)
  show b: "walk_slide (stream_game5 m p open_board g) (- 1, 0) (2, 1) = Some (Inr (1, 1))"
    using assms by (subst walk_slide.simps) (simp add: float_step_def at_float_index_def ok_def a)
  show "walk_slide (stream_game5 m p open_board g) (- 1, 0) (3, 1) = Some (Inr (1, 1))"
    using assms by (subst walk_slide.simps) (simp add: float_step_def at_float_index_def ok_def b)
qed

lemma random_walks_to_and_fro:
  "random_walks (2, 1) (stream_game5 (cycle [1, 0]) (2, 1) open_board (replicate 25 None))
     = Some (Inr (stream_game5 (cycle [1, 0]) (2, 1) open_board (replicate 25 None),
                  (replicate 25 0)[8 := 1000, 6 := 1000]))"
proof -
  let ?g = "replicate 25 (None :: mesh_ptr)"
  have g: "length ?g = 25" "?g ! 7 \<noteq> Some goop_mesh" "?g ! 8 \<noteq> Some goop_mesh"
    "?g ! 6 \<noteq> Some goop_mesh" by simp_all
  show ?thesis
    using random_walks_alternate [of "stream_game5 (cycle [1, 0]) (2, 1) open_board ?g"
        "stream_game5 (cycle [0, 1]) (2, 1) open_board ?g" "(2, 1)" "(3, 1)" "(1, 1)" 8 6]
      walk_slide_right [OF g(1-3)] walk_slide_left(3) [OF g(1,2,4)]
    by (simp add: to_vec2_def)
qed

text \<open>
  The run of \<^verbatim>\<open>create_board\<close> on 5 by 5 cells with the token at \<open>(2, 1)\<close>, when \<^verbatim>\<open>mt()\<close>
  returns 0, 1, 0, 1, 0, 0 and then 1 and 0 in turn: the first turn of the loop places a
  checkpoint on \<open>(1, 1)\<close>, the second on \<open>(3, 1)\<close>.
\<close>

lemma find_possible_cells_to_and_fro:
  "find_possible_cells (stream_game5 m (2, 1) b (replicate 25 None))
      ((replicate 25 0)[8 := 1000, 6 := 1000]) = Some (Inr [(1, 1), (3, 1)])"
  by (simp add: find_possible_cells_def possible_cell_def upt_5 replicate_25
      at_index_def and_then_def ok_def)

lemma pick_goal_to_and_fro:
  "pick_goal (stream_game5 (cycle [1, 0]) (2, 1) b g)
      ((replicate 25 0)[8 := 1000, 6 := 1000]) [(1, 1), (3, 1)]
     = Some (Inr ((1, 1), stream_game5 (cycle [0, 1]) (2, 1) b g))"
proof -
  let ?s = "stream_game5 (cycle [1, 0]) (2, 1) b g"
  let ?c = "(replicate 25 0)[8 := 1000, 6 := 1000 :: nat]"
  have k: "count_at ?s ?c (1, 1) = 1000" "count_at ?s ?c (3, 1) = 1000"
    by (simp_all add: count_at_def replicate_25)
  have e: "extend_limit ?s ?c [(1, 1), (3, 1)] (Suc 0) = Suc 0"
    by (simp add: extend_limit.simps [of _ _ _ "Suc 0"])
  have o: "sort_key (count_at ?s ?c) [(1, 1), (3, 1)] = [(1, 1), (3, 1)]"
    using k by (simp add: insort_key.simps)
  show ?thesis
    unfolding pick_goal_def o
    by (simp add: Let_def e [unfolded One_nat_def] draw_mod_def draw_def at_index_def
        and_then_def ok_def)
qed

lemma place_goal_to_and_fro_first:
  "place_goal (2, 1) (stream_game5 (cycle [1, 0]) (2, 1) open_board (replicate 25 None))
     = Some (Inr (Some (1, 1), stream_game5 (cycle [0, 1]) (2, 1) open_board
          ((replicate 25 None)[6 := Some checkpoint_mesh])))"
  by (simp add: place_goal_def random_walks_to_and_fro [unfolded One_nat_def]
      find_possible_cells_to_and_fro [unfolded One_nat_def]
      pick_goal_to_and_fro [unfolded One_nat_def]
      place_checkpoint_def at_index_def set_index_def and_then_def ok_def)

lemma random_walks_fro_and_to:
  "random_walks (1, 1) (stream_game5 (cycle [0, 1]) (2, 1) open_board
        ((replicate 25 None)[6 := Some checkpoint_mesh]))
     = Some (Inr (stream_game5 (cycle [0, 1]) (2, 1) open_board
                    ((replicate 25 None)[6 := Some checkpoint_mesh]),
                  (replicate 25 0)[6 := 1000, 8 := 1000]))"
proof -
  let ?g = "(replicate 25 None)[6 := Some checkpoint_mesh]"
  have g: "length ?g = 25" "?g ! 7 \<noteq> Some goop_mesh" "?g ! 8 \<noteq> Some goop_mesh"
    "?g ! 6 \<noteq> Some goop_mesh" by simp_all
  show ?thesis
    using random_walks_alternate [of "stream_game5 (cycle [0, 1]) (2, 1) open_board ?g"
        "stream_game5 (cycle [1, 0]) (2, 1) open_board ?g" "(1, 1)" "(1, 1)" "(3, 1)" 6 8]
      walk_slide_right(3) [OF g(1-3)] walk_slide_left(1,3) [OF g(1,2,4)]
    by (simp add: to_vec2_def)
qed

lemma find_possible_cells_fro_and_to:
  "find_possible_cells (stream_game5 m (2, 1) b ((replicate 25 None)[6 := Some checkpoint_mesh]))
      ((replicate 25 0)[6 := 1000, 8 := 1000]) = Some (Inr [(3, 1)])"
  by (simp add: find_possible_cells_def possible_cell_def upt_5 replicate_25
      at_index_def and_then_def ok_def)

lemma pick_goal_single:
  "pick_goal s k [p] = Some (Inr (p, s\<lparr>mt := stl (mt s)\<rparr>))"
  by (simp add: pick_goal_def Let_def extend_limit.simps [of _ _ _ "Suc 0"] draw_mod_def draw_def
      at_index_def and_then_def ok_def)

lemma place_goal_to_and_fro_second:
  "place_goal (1, 1) (stream_game5 (cycle [0, 1]) (2, 1) open_board
        ((replicate 25 None)[6 := Some checkpoint_mesh]))
     = Some (Inr (Some (3, 1), stream_game5 (cycle [1, 0]) (2, 1) open_board
          ((replicate 25 None)[6 := Some checkpoint_mesh, 8 := Some checkpoint_mesh])))"
  by (simp add: place_goal_def random_walks_fro_and_to [unfolded One_nat_def]
      find_possible_cells_fro_and_to [unfolded One_nat_def]
      pick_goal_single place_checkpoint_def at_index_def set_index_def and_then_def ok_def)

lemma generate_to_and_fro:
  "generate (stream_game5 (0 ## 1 ## 0 ## 1 ## 0 ## 0 ## cycle [1, 0]) (2, 1) b g)
     = Some (Inr (2, (3, 1), stream_game5 (cycle [1, 0]) (2, 1) open_board
          ((replicate 25 None)[6 := Some checkpoint_mesh, 8 := Some checkpoint_mesh])))"
  by (simp add: generate_def remove_everything_stream_game5
      place_walls_skipped [unfolded One_nat_def] place_goops_none
      place_goals.simps [of 0] place_goals.simps [of "Suc 0"] place_goals.simps [of 2]
      place_goals.simps [of "Suc (Suc 0)"]
      place_goal_to_and_fro_first [unfolded One_nat_def]
      place_goal_to_and_fro_second [unfolded One_nat_def]
      and_then_def ok_def)

lemma create_board_to_and_fro:
  "create_board (stream_game5 (0 ## 1 ## 0 ## 1 ## 0 ## 0 ## cycle [1, 0]) (2, 1) b g)
     = Some (Inr (stream_game5 (cycle [1, 0]) (2, 1) open_board
          ((replicate 25 None)[6 := Some checkpoint_mesh, 8 := Some goal_mesh])))"
  by (subst create_board.simps)
    (simp add: generate_to_and_fro [unfolded One_nat_def] main_goal_def set_index_def
      and_then_def ok_def)

section \<open>The board of 3 by 3 cells\<close>

lemma game3_fields [simp]:
  "board_size (game3 m b g) = (3, 3)" "board_meshes (game3 m b g) = b"
  "goal_meshes (game3 m b g) = g" "player (game3 m b g) = (1, 1)"
  "mt (game3 m b g) = m"
  "(game3 m b g)\<lparr>mt := m'\<rparr> = game3 m' b g"
  "(game3 m b g)\<lparr>board_meshes := b'\<rparr> = game3 m b' g"
  "(game3 m b g)\<lparr>goal_meshes := g'\<rparr> = game3 m b g'"
  by (simp_all add: game3_def)

lemma game3_ex [simp]: "\<exists>m'. game3 m b g = game3 m' b g"
  by (rule exI) (rule refl)

lemma game3_index [simp]:
  "x < 3 \<Longrightarrow> y < 3 \<Longrightarrow> cell_index (game3 m b g) (x, y) = y * 3 + x"
  "board_cells (game3 m b g) = 9"
  by (simp_all add: cell_index_def board_cells_def)

lemma game3_float_index [simp]:
  assumes "0 \<le> i" "i < 3" "0 \<le> j" "j < 3"
  shows "float_index (game3 m b g) (i, j) = j * 3 + i"
proof -
  have "\<bar>j * 3\<bar> < 2 ^ 24" "\<bar>j * 3 + i\<bar> < 2 ^ 24" using assms by simp_all
  then show ?thesis by (simp add: float_index_def f32_exact)
qed

lemma upt_3: "[0 ..< 3] = [0, Suc 0, 2]" "[Suc 0 ..< 2] = [Suc 0]"
  by (simp_all add: upt_rec)

lemma replicate_9: "replicate 9 x = [x, x, x, x, x, x, x, x, x]"
  by (simp add: numeral_eq_Suc)

lemma closed_board_nth [simp]:
  "length closed_board = 9" "closed_board ! Suc 0 = Some wall_mesh"
  "closed_board ! 3 = Some wall_mesh" "closed_board ! 4 = Some floor_mesh"
  "closed_board ! 5 = Some wall_mesh" "closed_board ! 7 = Some wall_mesh"
  by (simp_all add: closed_board_def)

lemma remove_everything_game3:
  "remove_everything (game3 m b g) = Some (Inr (game3 m closed_board (replicate 9 None)))"
  unfolding remove_everything_def
  by (simp add: upt_3 replicate_9 set_index_def and_then_def ok_def closed_board_def)

lemma random_board_position_game3:
  "random_board_position (game3 m b g) = Some (Inr ((1, 1), game3 (stl (stl m)) b g))"
  by (simp add: random_board_position_def draw_mod_def draw_def and_then_def ok_def u32_def)

lemma place_wall_game3:
  "place_wall (game3 m b g) = Some (Inr (game3 (stl (stl m)) b g))"
  by (simp add: place_wall_def random_board_position_game3 and_then_def ok_def)

lemma place_walls_game3:
  "\<exists>m'. place_walls (game3 m b g) = Some (Inr (game3 m' b g))"
proof -
  have "\<exists>y. for_each [0 ..< unat (shd m) mod 8 + 2] (\<lambda>w. place_wall) (game3 (stl m) b g)
      = Some (Inr y) \<and> (\<exists>m'. y = game3 m' b g)"
  proof (rule for_each_returns [where P = "\<lambda>x. \<exists>m'. x = game3 m' b g"])
    show "\<exists>m'. game3 (stl m) b g = game3 m' b g" by blast
  next
    fix i x assume "\<exists>m'. x = game3 m' b g"
    then show "\<exists>y. place_wall x = Some (Inr y) \<and> (\<exists>m'. y = game3 m' b g)"
      using place_wall_game3 by blast
  qed
  then show ?thesis
    by (auto simp: place_walls_def draw_mod_def draw_def and_then_def ok_def)
qed

lemma place_goop_game3:
  assumes "length g = 9"
  shows "place_goop (game3 m closed_board g)
      = Some (Inr (game3 (stl (stl m)) closed_board (g[4 := Some goop_mesh])))"
  using assms
  by (simp add: place_goop_def random_board_position_game3 at_index_def set_index_def
      and_then_def ok_def)

lemma place_goops_game3:
  assumes "length g = 9"
  shows "\<exists>m' g'. place_goops (game3 m closed_board g) = Some (Inr (game3 m' closed_board g'))
     \<and> length g' = 9"
proof -
  let ?P = "\<lambda>x. \<exists>m' g'. x = game3 m' closed_board g' \<and> length g' = 9"
  have "\<exists>y. for_each [0 ..< unat (shd m) mod 4] (\<lambda>g. place_goop) (game3 (stl m) closed_board g)
      = Some (Inr y) \<and> ?P y"
  proof (rule for_each_returns [where P = ?P])
    show "?P (game3 (stl m) closed_board g)" using assms by blast
  next
    fix i x assume "?P x"
    then obtain m' g' where x: "x = game3 m' closed_board g'" "length g' = 9" by blast
    have "length (g'[4 := Some goop_mesh]) = 9" using x(2) by simp
    then show "\<exists>y. place_goop x = Some (Inr y) \<and> ?P y"
      unfolding x(1) place_goop_game3 [OF x(2)] by blast
  qed
  then show ?thesis
    by (auto simp: place_goops_def draw_mod_def draw_def and_then_def ok_def)
qed

text \<open>Whatever the direction, the walker on the cell inside stays there.\<close>

lemma walk_slide_game3:
  assumes "r < 4"
  shows "walk_slide (game3 m closed_board g) (directions ! r) (1, 1) = Some (Inr (1, 1))"
proof -
  have "r = 0 \<or> r = 1 \<or> r = 2 \<or> r = 3" using assms by linarith
  then have "directions ! r \<in> {(- 1, 0), (1, 0), (0, - 1), (0, 1)}"
    by (auto simp: directions_def)
  then show ?thesis
    by (subst walk_slide.simps)
      (auto simp: float_step_def at_float_index_def ok_def)
qed

lemma walk_step_game3:
  assumes "length c = 9"
  shows "walk_step (game3 m closed_board g, (1, 1), c)
      = Some (Inr (game3 (stl m) closed_board g, (1, 1), c[4 := c ! 4 + 1]))"
  using assms
  by (simp add: walk_step_def draw_mod_def draw_def and_then_def ok_def walk_slide_game3
      at_float_index_def)

lemma random_walks_game3:
  "\<exists>m' c. random_walks (1, 1) (game3 m closed_board g) = Some (Inr (game3 m' closed_board g, c))
     \<and> length c = 9 \<and> (\<forall>i < 9. i \<noteq> 4 \<longrightarrow> c ! i = 0)"
proof -
  let ?Q = "\<lambda>c. length c = 9 \<and> (\<forall>i < 9. i \<noteq> 4 \<longrightarrow> c ! i = (0::nat))"
  let ?W = "\<lambda>(x, at, c). (\<exists>m'. x = game3 m' closed_board g) \<and> at = (1 :: int, 1 :: int) \<and> ?Q c"
  let ?P = "\<lambda>(x, c). (\<exists>m'. x = game3 m' closed_board g) \<and> ?Q c"
  have walk: "\<exists>y. random_walk (1, 1) x = Some (Inr y) \<and> ?P y" if "?P x" for x
  proof -
    obtain x1 c where x0: "x = (x1, c)" by (cases x)
    have "(\<exists>m'. x1 = game3 m' closed_board g) \<and> ?Q c"
      using that unfolding x0 by simp
    then obtain m' where x: "x = (game3 m' closed_board g, c)" and c: "?Q c"
      unfolding x0 by blast
    have "\<exists>y. for_each [0 ..< 20] (\<lambda>step. walk_step) (game3 m' closed_board g, (1, 1), c)
        = Some (Inr y) \<and> ?W y"
    proof (rule for_each_returns [where P = ?W])
      show "?W (game3 m' closed_board g, (1, 1), c)" using c by simp
    next
      fix i y assume w: "?W y"
      obtain y1 y2 c2 where y0: "y = (y1, y2, c2)" by (cases y)
      have "(\<exists>m2. y1 = game3 m2 closed_board g) \<and> y2 = (1, 1) \<and> ?Q c2"
        using w unfolding y0 by simp
      then obtain m2 where y: "y = (game3 m2 closed_board g, (1, 1), c2)" and c2: "?Q c2"
        unfolding y0 by blast
      have "?Q (c2[4 := c2 ! 4 + 1])" using c2 by simp
      then have "?W (game3 (stl m2) closed_board g, (1, 1), c2[4 := c2 ! 4 + 1])"
        by simp
      then show "\<exists>z. walk_step y = Some (Inr z) \<and> ?W z"
        unfolding y walk_step_game3 [OF conjunct1 [OF c2]] by blast
    qed
    then obtain y where y: "for_each [0 ..< 20] (\<lambda>step. walk_step)
        (game3 m' closed_board g, (1, 1), c) = Some (Inr y)" "?W y" by blast
    obtain y1 y2 c3 where y0: "y = (y1, y2, c3)" by (cases y)
    have "(\<exists>m3. y1 = game3 m3 closed_board g) \<and> y2 = (1, 1) \<and> ?Q c3"
      using y(2) unfolding y0 by simp
    then obtain m3 where
      "for_each [0 ..< 20] (\<lambda>step. walk_step) (game3 m' closed_board g, (1, 1), c)
        = Some (Inr (game3 m3 closed_board g, (1, 1), c3))" "?Q c3"
      using y(1) unfolding y0 by blast
    then have "random_walk (1, 1) x = Some (Inr (game3 m3 closed_board g, c3))" "?Q c3"
      unfolding x by (simp_all add: random_walk_def to_vec2_def and_then_def ok_def)
    then show ?thesis by simp
  qed
  have "\<exists>y. for_each [0 ..< 100] (\<lambda>iter. random_walk (1, 1))
      (game3 m closed_board g, replicate 9 0) = Some (Inr y) \<and> ?P y"
  proof (rule for_each_returns [where P = ?P])
    have "?Q (replicate 9 0)" by simp
    then show "?P (game3 m closed_board g, replicate 9 0)" by simp
  next
    fix i x assume "?P x"
    then show "\<exists>y. random_walk (1, 1) x = Some (Inr y) \<and> ?P y" by (rule walk)
  qed
  then obtain y where y: "random_walks (1, 1) (game3 m closed_board g) = Some (Inr y)" "?P y"
    unfolding random_walks_def by auto
  obtain y1 c where y0: "y = (y1, c)" by (cases y)
  have "(\<exists>m'. y1 = game3 m' closed_board g) \<and> ?Q c"
    using y(2) unfolding y0 by simp
  then show ?thesis using y(1) unfolding y0 by blast
qed

lemma find_possible_cells_game3:
  assumes "length g = 9" "length c = 9" "\<forall>i < 9. i \<noteq> 4 \<longrightarrow> c ! i = 0"
  shows "find_possible_cells (game3 m b g) c = Some (Inr [])"
proof -
  have "c ! 0 = 0" "c ! Suc 0 = 0" "c ! Suc (Suc 0) = 0" "c ! 3 = 0" "c ! 5 = 0" "c ! 6 = 0"
    "c ! 7 = 0" "c ! 8 = 0"
    using assms(3) by simp_all
  then show ?thesis
    using assms(1,2)
    by (simp add: find_possible_cells_def possible_cell_def upt_3 at_index_def and_then_def ok_def)
qed

lemma place_goal_game3:
  assumes "length g = 9"
  shows "\<exists>m'. place_goal (1, 1) (game3 m closed_board g)
      = Some (Inr (None, game3 m' closed_board g))"
proof -
  from random_walks_game3 [of m g] obtain m' c where
    w: "random_walks (1, 1) (game3 m closed_board g) = Some (Inr (game3 m' closed_board g, c))"
    and c: "length c = 9" "\<forall>i < 9. i \<noteq> 4 \<longrightarrow> c ! i = 0"
    by blast
  show ?thesis
    by (simp add: place_goal_def w [unfolded One_nat_def]
        find_possible_cells_game3 [OF assms c] and_then_def ok_def)
qed

text \<open>So a pass places no goal, and the next pass starts on the same board.\<close>

lemma generate_game3:
  "\<exists>m' b' g'. generate (game3 m b g) = Some (Inr (0, (1, 1), game3 m' b' g'))"
proof -
  from place_walls_game3 obtain m1 where
    a: "place_walls (game3 m closed_board (replicate 9 None))
      = Some (Inr (game3 m1 closed_board (replicate 9 None)))" by blast
  from place_goops_game3 [of "replicate 9 None" m1] obtain m2 g2 where
    b: "place_goops (game3 m1 closed_board (replicate 9 None))
      = Some (Inr (game3 m2 closed_board g2))" and l: "length g2 = 9" by auto
  from place_goal_game3 [OF l] obtain m3 where
    c: "place_goal (1, 1) (game3 m2 closed_board g2) = Some (Inr (None, game3 m3 closed_board g2))"
    by blast
  have "generate (game3 m b g) = Some (Inr (0, (1, 1), game3 m3 closed_board g2))"
    by (simp add: generate_def remove_everything_game3 a b c [unfolded One_nat_def]
        place_goals.simps [of 0] and_then_def ok_def)
  then show ?thesis by blast
qed

lemma create_board_game3: "create_board (game3 m b g) = None"
proof -
  have never: "\<forall>m b g. s = game3 m b g \<longrightarrow> False" if "create_board s = Some r" for s r
  proof (rule create_board.raw_induct [where P = "\<lambda>s r. \<forall>m b g. s = game3 m b g \<longrightarrow> False",
        OF _ that])
    fix cb s r
    assume ih: "\<And>s r. cb s = Some r \<Longrightarrow> \<forall>m b g. s = game3 m b g \<longrightarrow> False"
      and eq: "(case generate s of
         None \<Rightarrow> None
       | Some (Inl e) \<Rightarrow> Some (Inl e)
       | Some (Inr (goals, prev_goal, s1)) \<Rightarrow>
          if goals = 0 then cb s1 else main_goal prev_goal s1) = Some r"
    show "\<forall>m b g. s = game3 m b g \<longrightarrow> False"
    proof (intro allI impI)
      fix m b g assume s: "s = game3 m b g"
      from generate_game3 [of m b g] obtain m' b' g' where
        "generate (game3 m b g) = Some (Inr (0, (1, 1), game3 m' b' g'))" by blast
      then have "cb (game3 m' b' g') = Some r" using eq unfolding s by simp
      from ih [OF this] show False by blast
    qed
  qed
  show ?thesis
  proof (cases "create_board (game3 m b g)")
    case None
    then show ?thesis .
  next
    case (Some r)
    from never [OF this] show ?thesis by blast
  qed
qed

text \<open>The three turns that the loop \<^verbatim>\<open>while (goals < 2)\<close> can take, written out.\<close>

lemma place_goals_turns:
  "place_goals 0 prev_goal s =
    and_then (place_goal prev_goal s) (\<lambda>(placed1, s1).
      case placed1 of
        None \<Rightarrow> ok (0, prev_goal, s1)
      | Some g1 \<Rightarrow>
          and_then (place_goal g1 s1) (\<lambda>(placed2, s2).
            case placed2 of
              None \<Rightarrow> ok (1, g1, s2)
            | Some g2 \<Rightarrow> ok (2, g2, s2)))"
  by (simp add: place_goals.simps [of 0] place_goals.simps [of "Suc 0"]
      place_goals.simps [of "Suc (Suc 0)"] numeral_2_eq_2
      cong: option.case_cong)

section \<open>The turns of the loop that places the goals\<close>

text \<open>The state in which the first turn starts: what the walls and the goops leave.\<close>

lemma before_placement:
  assumes "exact_board s" "inside s (player s)"
    and "remove_everything s = Some (Inr s1)" "place_walls s1 = Some (Inr s2)"
    and "place_goops s2 = Some (Inr s3)"
  shows "sized s3" "perimeter_walls s3" "exact_board s3" "inside s3 (player s3)"
    "same_frame s s3"
proof -
  note sm = exact_small [OF assms(1)]
  note ra = remove_everything_perimeter [OF sm assms(3)]
  note f1 = same_frame_simps [OF ra(3)]
  note rb = place_walls_result [OF assms(4)]
  note f2 = same_frame_simps [OF rb(1)]
  have "length (board_meshes s2) = length (board_meshes s1)" using rb(3) by (simp add: walls_kept_def)
  then have z2: "sized s2" using rb(2) by (intro sized_kept [OF ra(2) rb(1)]) simp_all
  have p2: "perimeter_walls s2"
    using ra(1) f2(8) rb(3) by (rule perimeter_walls_kept)
  note rc = place_goops_result [OF assms(5)]
  note f3 = same_frame_simps [OF rc(1)]
  show "sized s3" using rc(2,3) by (intro sized_kept [OF z2 rc(1)]) simp_all
  show "perimeter_walls s3"
    using p2 f3(8) by (rule perimeter_walls_kept) (simp add: walls_kept_same rc(2))
  show "exact_board s3" using assms(1) f1(10) f2(10) f3(10) by simp
  show "inside s3 (player s3)" using assms(2) f1 f2 f3 by simp
  show "same_frame s s3" using ra(3) rb(1) rc(1) by (blast intro: same_frame_trans)
qed

text \<open>
  The state in which a turn starts, be it the first or the second: the perimeter is all
  wall, and the walks start inside it.
\<close>

lemma placement_turn:
  assumes "exact_board s" "inside s (player s)"
    and "remove_everything s = Some (Inr s1)" "place_walls s1 = Some (Inr s2)"
    and "place_goops s2 = Some (Inr s3)"
    and "(prev_goal, t) = (player s3, s3)
       \<or> place_goal (player s3) s3 = Some (Inr (Some prev_goal, t))"
  shows "sized t" "perimeter_walls t" "exact_board t" "inside t prev_goal" "same_frame s t"
proof -
  note b = before_placement [OF assms(1-5)]
  have "sized t \<and> perimeter_walls t \<and> exact_board t \<and> inside t prev_goal \<and> same_frame s t"
    using assms(6)
  proof
    assume "(prev_goal, t) = (player s3, s3)"
    then show ?thesis using b by simp
  next
    assume p: "place_goal (player s3) s3 = Some (Inr (Some prev_goal, t))"
    note k = place_goal_keeps [OF p b(1,2)]
    from place_goal_returns [OF b(1-4)] obtain placed t' where
      "place_goal (player s3) s3 = Some (Inr (placed, t'))"
      "\<forall>g. placed = Some g \<longrightarrow> visited s3 (player s3) g \<and> g \<noteq> player s3" by blast
    with p have "visited s3 (player s3) prev_goal" by simp
    then have "inside t prev_goal" using k(4) by (simp add: visited_def)
    moreover have "same_frame s t"
      using b(5) place_goal_result(1) [OF p] by (rule same_frame_trans)
    ultimately show ?thesis using k b(3) by simp
  qed
  then show "sized t" "perimeter_walls t" "exact_board t" "inside t prev_goal" "same_frame s t"
    by simp_all
qed

text \<open>The walks count cells inside the perimeter only.\<close>

lemma counts_inside:
  assumes "sized s" "perimeter_walls s" "exact_board s" "inside s start"
    and "random_walks start s = Some (Inr (s1, c))"
    and "in_board s p" "0 < c ! cell_index s p"
  shows "inside s p"
proof -
  from random_walks_returns [OF assms(1-4)] assms(5) have inv: "counts_inv s start (s1, c)"
    by auto
  note sm = exact_small [OF assms(3)]
  have "cell_index s p < length c"
    using cell_index_in_board [OF assms(6)] sm inv
    by (simp add: counts_inv_def small_board_def board_cells_small)
  with inv assms(7) obtain q where q: "visited s start q" "cell_index s q = cell_index s p"
    unfolding counts_inv_def by auto
  then have "q = p"
    using cell_index_inj [of s q p] assms(6) sm
    by (simp add: visited_def inside_in_board small_board_def)
  then show ?thesis using q(1) by (simp add: visited_def)
qed


section \<open>The claims\<close>

text \<open>
  C1. On a board whose perimeter is all wall (and whose vectors have one entry per cell),
  with the token strictly inside and a step that is one of the four unit vectors,
  \<^verbatim>\<open>move_player\<close> returns, and the token has advanced some number \<open>k\<close> of cells: every
  cell it entered (the cells \<open>1..k\<close> ahead of its start) is inside the perimeter and is
  not a wall, none of those before the last holds goop, and it stopped either because
  the next cell is a wall or because the cell it is on holds goop. In particular the
  token does not move when the adjacent cell is a wall.
\<close>

theorem move_player_slides:
  assumes "sized s" "perimeter_walls s" "inside s (player s)" "unit_step dx dy"
  shows "\<exists>k s'. move_player s dx dy = Some (Inr s') \<and> player s' = cell_ahead s dx dy k
     \<and> (\<forall>j. 1 \<le> j \<and> j \<le> k \<longrightarrow>
           inside s (cell_ahead s dx dy j) \<and> \<not> is_wall s (cell_ahead s dx dy j))
     \<and> (\<forall>j. 1 \<le> j \<and> j < k \<longrightarrow> \<not> is_sticky s (cell_ahead s dx dy j))
     \<and> (is_wall s (cell_ahead s dx dy (k + 1)) \<or> (1 \<le> k \<and> is_sticky s (cell_ahead s dx dy k)))
     \<and> (is_wall s (cell_ahead s dx dy 1) \<longrightarrow> k = 0)"
proof -
  from move_loop_slides [OF assms(1,2,4,3)] obtain k where
    ml: "move_loop s dx dy = Some (Inr (s\<lparr>player := cell_ahead s dx dy k\<rparr>))"
    and st: "slide_stops s dx dy k" by blast
  let ?s1 = "s\<lparr>player := cell_ahead s dx dy k\<rparr>"
  have ins: "inside s (cell_ahead s dx dy k)"
  proof (cases k)
    case 0
    then show ?thesis using assms(3) by simp
  next
    case (Suc n)
    then show ?thesis using st by (simp add: slide_stops_def)
  qed
  have idx: "cell_index s (cell_ahead s dx dy k) < length (goal_meshes s)"
    using cell_index_in_board [OF inside_in_board [OF ins]] assms(1) by (simp add: sized_def)
  obtain s2 where g: "gather_checkpoint ?s1 = Some (Inr s2)" "player s2 = cell_ahead s dx dy k"
    "length (goal_meshes s2) = length (goal_meshes s)" "cell_index s2 = cell_index s"
    using idx by (cases "goal_meshes s ! cell_index s (cell_ahead s dx dy k) = Some checkpoint_mesh")
      (auto simp: gather_checkpoint_def cell_index_def fun_eq_iff)
  then obtain s' where w: "update_won s2 = Some (Inr s')" "player s' = cell_ahead s dx dy k"
    using idx by (auto simp: update_won_Inr)
  have px: "fst (player s) + 1 < 2 ^ 32" "snd (player s) + 1 < 2 ^ 32"
    using inside_small [OF assms(1,3)] by simp_all
  have mp: "move_player s dx dy = Some (Inr s')"
    using assms(3) px ml g(1) w(1)
    by (simp add: move_player_def inside_def u32_def nat_add_distrib and_then_def)
  have "is_wall s (cell_ahead s dx dy 1) \<longrightarrow> k = 0"
    using st by (cases k) (auto simp: slide_stops_def)
  then show ?thesis using mp w(2) st unfolding slide_stops_def by blast
qed

theorem move_player_slides_witness:
  "sized (game5 1 (2, 2) open_board ((replicate 25 None)[12 := Some goop_mesh, 13 := Some goal_mesh]) 0 True)
   \<and> perimeter_walls (game5 1 (2, 2) open_board ((replicate 25 None)[12 := Some goop_mesh, 13 := Some goal_mesh]) 0 True)
   \<and> inside (game5 1 (2, 2) open_board ((replicate 25 None)[12 := Some goop_mesh, 13 := Some goal_mesh]) 0 True) (2, 2)
   \<and> unit_step (- 1) 0
   \<and> (\<exists>s'. move_player (game5 1 (2, 2) open_board
          ((replicate 25 None)[12 := Some goop_mesh, 13 := Some goal_mesh]) 0 True) (- 1) 0 = Some (Inr s')
        \<and> player s' = (1, 2))"
proof -
  let ?s = "game5 1 (2, 2) open_board ((replicate 25 None)[12 := Some goop_mesh, 13 := Some goal_mesh]) 0 True"
  have h: "sized ?s" "perimeter_walls ?s" "inside ?s (player ?s)" "unit_step (- 1) 0"
    by (simp_all add: sized_game5 perimeter_walls_open_board inside_def unit_step_def)
  from move_player_slides [OF h] obtain k s' where
    m: "move_player ?s (- 1) 0 = Some (Inr s')" "player s' = cell_ahead ?s (- 1) 0 k"
    and a: "\<forall>j. 1 \<le> j \<and> j \<le> k \<longrightarrow>
           inside ?s (cell_ahead ?s (- 1) 0 j) \<and> \<not> is_wall ?s (cell_ahead ?s (- 1) 0 j)"
    and b: "is_wall ?s (cell_ahead ?s (- 1) 0 (k + 1)) \<or> (1 \<le> k \<and> is_sticky ?s (cell_ahead ?s (- 1) 0 k))"
    by blast
  have "k < 2"
  proof (rule ccontr)
    assume "\<not> k < 2"
    then have "inside ?s (cell_ahead ?s (- 1) 0 2)" using a by simp
    then show False by (simp add: cell_ahead_def inside_def)
  qed
  moreover have "k \<noteq> 0"
  proof
    assume "k = 0"
    then show False using b by (simp add: cell_ahead_def is_wall_def open_board_def)
  qed
  ultimately have "k = 1" by simp
  then have "player s' = (1, 2)" using m(2) by (simp add: cell_ahead_def)
  then show ?thesis using h m(1) by auto
qed

text \<open>
  C2. A completed call of \<^verbatim>\<open>create_board\<close> (whatever the number of retries) leaves a
  board whose perimeter cells are all walls, provided \<^verbatim>\<open>board_size.x * board_size.y\<close>
  does not wrap. The floor is laid inside the perimeter only; and each later step of the
  generation (walls, goops, a placed checkpoint, the main goal) and each move of the
  player keeps a perimeter of walls.
\<close>

theorem perimeter_stays_wall:
  "(small_board s \<and> create_board s = Some (Inr s') \<longrightarrow> perimeter_walls s')
   \<and> (small_board s \<and> remove_everything s = Some (Inr s') \<longrightarrow> perimeter_walls s')
   \<and> (perimeter_walls t
       \<and> (place_walls t = Some (Inr t') \<or> place_goops t = Some (Inr t')
          \<or> place_goal prev_goal t = Some (Inr (placed, t'))
          \<or> main_goal prev_goal t = Some (Inr t')
          \<or> move_player t dx dy = Some (Inr t'))
       \<longrightarrow> perimeter_walls t')"
proof (intro conjI impI)
  assume a: "small_board s \<and> create_board s = Some (Inr s')"
  from create_board_result [OF conjunct2 [OF a]] obtain s0 goals prev_goal s1 where
    f: "same_frame s s0" and g: "generate s0 = Some (Inr (goals, prev_goal, s1))"
    and e: "s' = s1\<lparr>goal_meshes := (goal_meshes s1)[cell_index s1 prev_goal := Some goal_mesh]\<rparr>"
    by blast
  have "small_board s0" using a same_frame_simps(5) [OF f] by simp
  from generate_board(2) [OF g this] show "perimeter_walls s'"
    unfolding e by (rule perimeter_walls_kept) (simp_all add: walls_kept_def)
next
  assume a: "small_board s \<and> remove_everything s = Some (Inr s')"
  from remove_everything_result [OF conjunct1 [OF a]] a
  have r: "same_frame s s'" "\<And>p. in_board s p \<Longrightarrow>
          board_meshes s' ! cell_index s p = Some (if inside s p then floor_mesh else wall_mesh)"
    by auto
  note fs = same_frame_simps [OF r(1)]
  show "perimeter_walls s'"
    unfolding perimeter_walls_def
  proof (intro allI impI)
    fix p assume "in_board s' p \<and> on_perimeter s' p"
    then have "in_board s p" "\<not> inside s p" using fs inside_not_perimeter [of s p] by auto
    then show "is_wall s' p" using r(2) [of p] fs by (simp add: is_wall_def)
  qed
next
  assume a: "perimeter_walls t
       \<and> (place_walls t = Some (Inr t') \<or> place_goops t = Some (Inr t')
          \<or> place_goal prev_goal t = Some (Inr (placed, t'))
          \<or> main_goal prev_goal t = Some (Inr t')
          \<or> move_player t dx dy = Some (Inr t'))"
  then have "board_size t' = board_size t \<and> walls_kept t t'"
    using place_walls_result(1,3) [of t t'] place_goops_result(1,2) [of t t']
      place_goal_result(1,2) [of prev_goal t placed t'] move_player_frame(1,2) [of t dx dy t']
    by (auto simp: same_frame_size walls_kept_same main_goal_Inr)
  then show "perimeter_walls t'" using a perimeter_walls_kept by blast
qed

theorem perimeter_stays_wall_witness:
  "small_board (game5 1 (2, 2) [] [] 0 True)
   \<and> create_board (game5 1 (2, 2) [] [] 0 True)
       = Some (Inr (game5 1 (2, 2) open_board
            ((replicate 25 None)[12 := Some goop_mesh, 13 := Some goal_mesh]) 0 True))
   \<and> remove_everything (game5 1 (2, 2) [] [] 0 True)
       = Some (Inr (game5 1 (2, 2) open_board (replicate 25 None) 0 True))
   \<and> perimeter_walls (game5 1 (2, 2) open_board (replicate 25 None) 0 True)
   \<and> place_goops (game5 1 (2, 2) open_board (replicate 25 None) 0 True)
       = Some (Inr (game5 1 (2, 2) open_board ((replicate 25 None)[12 := Some goop_mesh]) 0 True))
   \<and> perimeter_walls (game5 1 (2, 2) open_board ((replicate 25 None)[12 := Some goop_mesh]) 0 True)
   \<and> perimeter_walls (game5 1 (2, 2) open_board
        ((replicate 25 None)[12 := Some goop_mesh, 13 := Some goal_mesh]) 0 True)"
proof -
  let ?g = "game5 1 (2, 2) [] [] 0 True"
  let ?x = "game5 1 (2, 2) open_board ((replicate 25 None)[12 := Some goop_mesh, 13 := Some goal_mesh]) 0 True"
  let ?a = "game5 1 (2, 2) open_board (replicate 25 None) 0 True"
  let ?b = "game5 1 (2, 2) open_board ((replicate 25 None)[12 := Some goop_mesh]) 0 True"
  have sb: "small_board ?g" by (simp add: small_board_def)
  have cb: "create_board ?g = Some (Inr ?x)" by (rule create_board_ones)
  have re: "remove_everything ?g = Some (Inr ?a)" by (rule remove_everything_game5)
  have pg: "place_goops ?a = Some (Inr ?b)" by (rule place_goops_ones)
  have 1: "perimeter_walls ?x"
    using perimeter_stays_wall [of ?g ?x] sb cb by simp
  have 2: "perimeter_walls ?a"
    using perimeter_stays_wall [of ?g ?a] sb re by simp
  have 3: "perimeter_walls ?b"
    using perimeter_stays_wall [of ?g ?a ?a ?b] 2 pg by simp
  show ?thesis using sb cb re pg 1 2 3 by simp
qed



text \<open>
  C4, as the code has it. On a board of 3 by 3 cells the one cell inside the perimeter is
  the cell of the token. Whatever \<^verbatim>\<open>mt()\<close> returns, every wall falls on the token and is
  skipped, and every step of every walk looks at a wall of the perimeter, so that the
  walker never leaves the cell of the token. That cell is no possible cell, the list is
  empty in the first turn of the loop, and \<^verbatim>\<open>create_board\<close> calls itself on the same board.
  It does not return, for any stream.
\<close>

theorem create_board_diverges_counterexample:
  "\<forall>m. exact_board (game3 m [] []) \<and> inside (game3 m [] []) (player (game3 m [] []))
     \<and> create_board (game3 m [] []) = None"
  by (simp add: exact_board_def inside_def create_board_game3)

text \<open>
  C4, amended. In a state whose board has fewer than \<open>2^24\<close> cells and whose token is
  inside the perimeter, every pass of the generation (\<^verbatim>\<open>create_board\<close> up to the test
  \<^verbatim>\<open>goals == 0\<close>) returns, whatever the stream, and nothing in \<^verbatim>\<open>create_board\<close> fails.
  The call as a whole returns exactly when one of the successive passes places a goal.
\<close>

theorem create_board_returns_iff:
  assumes "exact_board s" "inside s (player s)"
  shows "(\<forall>n t. retry n s = Some t \<longrightarrow>
            (\<exists>goals prev_goal t1. generate t = Some (Inr (goals, prev_goal, t1))))
     \<and> ((\<exists>s'. create_board s = Some (Inr s'))
          = (\<exists>n t goals prev_goal t1. retry n s = Some t
               \<and> generate t = Some (Inr (goals, prev_goal, t1)) \<and> 0 < goals))
     \<and> (\<forall>e. create_board s \<noteq> Some (Inl e))"
proof -
  have gen: "\<exists>goals prev_goal t1. generate t = Some (Inr (goals, prev_goal, t1))"
    if "retry n s = Some t" for n t
  proof -
    note fs = same_frame_simps [OF retry_frame [OF that]]
    have "exact_board t" "inside t (player t)" using assms fs by simp_all
    from generate_returns [OF this] show ?thesis by blast
  qed
  have promote: "\<exists>s'. main_goal prev_goal t1 = Some (Inr s')"
    if "generate t = Some (Inr (goals, prev_goal, t1))" "0 < goals" for t goals prev_goal t1
  proof -
    have "cell_index t1 = cell_index t"
      using same_frame_simps(1) [OF generate_result(1) [OF that(1)]] .
    then show ?thesis
      using generate_result(2) [OF that(1)] that(2) by (simp add: main_goal_Inr)
  qed
  have bk: "\<exists>s'. create_board s = Some (Inr s')"
    if "retry n s = Some t" "generate t = Some (Inr (goals, prev_goal, t1))" "0 < goals"
    for n t goals prev_goal t1
  proof -
    have "create_board t = main_goal prev_goal t1"
      using that(2,3) by (subst create_board.simps) simp
    then show ?thesis using create_board_retry [OF that(1)] promote [OF that(2,3)] by simp
  qed
  have forth: "\<exists>n t goals prev_goal t1. retry n s = Some t
               \<and> generate t = Some (Inr (goals, prev_goal, t1)) \<and> 0 < goals"
    if "create_board s = Some (Inr s')" for s'
    using create_board_chain [OF that] by blast
  have noerr: "create_board s \<noteq> Some (Inl e)" for e
  proof
    assume "create_board s = Some (Inl e)"
    from create_board_chain [OF this] obtain n t where t: "retry n s = Some t"
      and c: "(\<exists>e'. generate t = Some (Inl e'))
        \<or> (\<exists>goals prev_goal t1. generate t = Some (Inr (goals, prev_goal, t1)) \<and> 0 < goals
             \<and> main_goal prev_goal t1 = Some (Inl e))"
      by blast
    from c show False
    proof
      assume "\<exists>e'. generate t = Some (Inl e')"
      then show False using gen [OF t] by auto
    next
      assume "\<exists>goals prev_goal t1. generate t = Some (Inr (goals, prev_goal, t1)) \<and> 0 < goals
             \<and> main_goal prev_goal t1 = Some (Inl e)"
      then show False using promote by fastforce
    qed
  qed
  show ?thesis using gen bk forth noerr by blast
qed

theorem create_board_returns_iff_witness:
  "exact_board (game5 1 (2, 2) [] [] 0 False)
   \<and> inside (game5 1 (2, 2) [] [] 0 False) (player (game5 1 (2, 2) [] [] 0 False))
   \<and> retry 0 (game5 1 (2, 2) [] [] 0 False) = Some (game5 1 (2, 2) [] [] 0 False)
   \<and> generate (game5 1 (2, 2) [] [] 0 False)
       = Some (Inr (1, (3, 2), game5 1 (2, 2) open_board
          ((replicate 25 None)[12 := Some goop_mesh, 13 := Some checkpoint_mesh]) 0 False))
   \<and> (\<exists>s'. create_board (game5 1 (2, 2) [] [] 0 False) = Some (Inr s'))"
proof -
  let ?g = "game5 1 (2, 2) [] [] 0 False"
  have h: "exact_board ?g" "inside ?g (player ?g)"
    by (simp_all add: exact_board_def inside_def)
  have r: "retry 0 ?g = Some ?g" by simp
  note g = generate_ones [of "[]" "[]" 0 False]
  have "\<exists>n t goals prev_goal t1. retry n ?g = Some t
               \<and> generate t = Some (Inr (goals, prev_goal, t1)) \<and> 0 < goals"
    using r g zero_less_one by blast
  then have "\<exists>s'. create_board ?g = Some (Inr s')"
    using create_board_returns_iff [OF h] by blast
  then show ?thesis using h r g by blast
qed

text \<open>
  C5, as the code has it. The generator with the stream of ones, on a board of 5 by 5
  cells with the token at \<open>(2, 2)\<close>, finds a single candidate in the first turn of the
  loop and none in the second: the board it returns holds the goal and no checkpoint.
\<close>

theorem create_board_no_checkpoint_counterexample:
  "create_board (game5 1 (2, 2) [] [] 0 True)
     = Some (Inr (game5 1 (2, 2) open_board
          ((replicate 25 None)[12 := Some goop_mesh, 13 := Some goal_mesh]) 0 True))
   \<and> count_list (goal_meshes (game5 1 (2, 2) open_board
          ((replicate 25 None)[12 := Some goop_mesh, 13 := Some goal_mesh]) 0 True))
        (Some checkpoint_mesh) = 0"
  by (simp add: create_board_ones replicate_25)

text \<open>
  C5, amended. A board that \<^verbatim>\<open>create_board\<close> returns comes from a pass whose first turn of
  the loop \<^verbatim>\<open>while (goals < 2)\<close> placed a checkpoint on a cell \<open>g1\<close>. The second turn,
  which starts its walks from \<open>g1\<close>, places nothing exactly when its list of possible cells
  is empty. The board holds the goal once. When the second turn placed nothing, the
  board holds no checkpoint, and \<open>g1\<close> holds the goal; when the second turn placed a
  checkpoint on a cell \<open>g2\<close>, the board holds one checkpoint, on \<open>g1\<close>, and \<open>g2\<close> holds the
  goal.
\<close>

theorem create_board_checkpoints:
  assumes "create_board s = Some (Inr s')"
  shows "\<exists>n t t1 t2 t3 g1 t4 placed t5.
       retry n s = Some t
     \<and> remove_everything t = Some (Inr t1) \<and> place_walls t1 = Some (Inr t2)
     \<and> place_goops t2 = Some (Inr t3)
     \<and> place_goal (player t3) t3 = Some (Inr (Some g1, t4))
     \<and> place_goal g1 t4 = Some (Inr (placed, t5))
     \<and> (placed = None) = (\<exists>t6 board_counts. random_walks g1 t4 = Some (Inr (t6, board_counts))
           \<and> find_possible_cells t6 board_counts = Some (Inr []))
     \<and> count_list (goal_meshes s') (Some goal_mesh) = 1
     \<and> count_list (goal_meshes s') (Some checkpoint_mesh)
         = (case placed of None \<Rightarrow> 0 | Some g2 \<Rightarrow> 1)
     \<and> (case placed of
           None \<Rightarrow> goal_meshes s' ! cell_index s' g1 = Some goal_mesh
         | Some g2 \<Rightarrow> goal_meshes s' ! cell_index s' g1 = Some checkpoint_mesh
             \<and> goal_meshes s' ! cell_index s' g2 = Some goal_mesh)"
proof -
  from create_board_chain [OF assms] obtain n t goals prev_goal t' where
    r: "retry n s = Some t" and g: "generate t = Some (Inr (goals, prev_goal, t'))"
    and n: "0 < goals" and m: "main_goal prev_goal t' = Some (Inr s')"
    by blast
  from generate_phases [OF g] obtain t1 t2 t3 where
    a: "remove_everything t = Some (Inr t1)" and b: "place_walls t1 = Some (Inr t2)"
    and c: "place_goops t2 = Some (Inr t3)"
    and d: "place_goals 0 (player t3) t3 = Some (Inr (goals, prev_goal, t'))"
    by blast
  from d [unfolded place_goals_turns] obtain placed1 t4 where
    p1: "place_goal (player t3) t3 = Some (Inr (placed1, t4))"
    and d1: "(case placed1 of
        None \<Rightarrow> ok (0, player t3, t4)
      | Some g1 \<Rightarrow>
          and_then (place_goal g1 t4) (\<lambda>(placed2, s2).
            case placed2 of
              None \<Rightarrow> ok (1, g1, s2)
            | Some g2 \<Rightarrow> ok (2, g2, s2))) = Some (Inr (goals, prev_goal, t'))"
    by auto
  from d1 n obtain g1 where g1: "placed1 = Some g1" by (cases placed1) auto
  from d1 [unfolded g1] obtain placed t5 where
    p2: "place_goal g1 t4 = Some (Inr (placed, t5))"
    and d2: "(case placed of None \<Rightarrow> ok (1, g1, t5) | Some g2 \<Rightarrow> ok (2, g2, t5))
        = Some (Inr (goals, prev_goal, t'))"
    by auto
  have goals: "goals = (case placed of None \<Rightarrow> 1 | Some g2 \<Rightarrow> 2)"
    using d2 by (cases placed) auto
  from place_goal_cases [OF p2] obtain t6 board_counts possible_cells where
    w: "random_walks g1 t4 = Some (Inr (t6, board_counts))"
    and f: "find_possible_cells t6 board_counts = Some (Inr possible_cells)"
    and e0: "if possible_cells = [] then placed = None \<and> t5 = t6
        else \<exists>g. placed = Some g \<and> g \<in> set possible_cells
          \<and> cell_index t4 g < length (goal_meshes t4) \<and> goal_meshes t4 ! cell_index t4 g = None
          \<and> t5 = t6\<lparr>mt := stl (mt t6),
                 goal_meshes := (goal_meshes t4)[cell_index t4 g := Some checkpoint_mesh]\<rparr>"
    by blast
  have e: "(placed = None) = (possible_cells = [])"
    using e0 by (cases "possible_cells = []") auto
  have none: "(placed = None) = (\<exists>t6 board_counts. random_walks g1 t4 = Some (Inr (t6, board_counts))
           \<and> find_possible_cells t6 board_counts = Some (Inr []))"
    unfolding e using w f by auto
  have ci: "cell_index t' = cell_index t"
    using same_frame_simps(1) [OF generate_result(1) [OF g]] .
  have "1 \<le> goals" using n by simp
  note i = generate_result(2) [OF g this]
  have s': "s' = t'\<lparr>goal_meshes := (goal_meshes t')[cell_index t prev_goal := Some goal_mesh]\<rparr>"
    using m by (simp add: main_goal_Inr ci)
  have "count_list (goal_meshes s') (Some checkpoint_mesh) + 1 = goals"
    using count_list_update [of "cell_index t prev_goal" "goal_meshes t'" "Some goal_mesh"
        "Some checkpoint_mesh"] i generate_result(4) [OF g]
    unfolding s' by simp
  then have cp: "count_list (goal_meshes s') (Some checkpoint_mesh)
         = (case placed of None \<Rightarrow> 0 | Some g2 \<Rightarrow> 1)"
    unfolding goals by (cases placed) simp_all
  have f3: "same_frame t t3"
    using remove_everything_frame(1) [OF a] place_walls_result(1) [OF b]
      place_goops_result(1) [OF c] by (blast intro: same_frame_trans)
  have c3: "cell_index t3 = cell_index t" using same_frame_simps(1) [OF f3] .
  have c4: "cell_index t4 = cell_index t"
    using same_frame_simps(1) [OF place_goal_result(1) [OF p1]] c3 by simp
  have cs: "cell_index s' = cell_index t"
    using same_frame_simps(1) [OF create_board_frame [OF assms]]
      same_frame_simps(1) [OF retry_frame [OF r]] by simp
  have gm: "goal_meshes s' = (goal_meshes t')[cell_index t prev_goal := Some goal_mesh]"
    unfolding s' by simp
  note q1 = place_goal_result(4) [OF p1 g1, unfolded c3]
  have cells: "case placed of
           None \<Rightarrow> goal_meshes s' ! cell_index s' g1 = Some goal_mesh
         | Some g2 \<Rightarrow> goal_meshes s' ! cell_index s' g1 = Some checkpoint_mesh
             \<and> goal_meshes s' ! cell_index s' g2 = Some goal_mesh"
  proof (cases placed)
    case None
    then have "prev_goal = g1" using d2 by simp
    then show ?thesis using None i unfolding cs gm by simp
  next
    case (Some g2)
    then have e: "prev_goal = g2" "t' = t5" using d2 by simp_all
    note q2 = place_goal_result(4) [OF p2 Some, unfolded c4]
    have "goal_meshes t4 ! cell_index t g1 = Some checkpoint_mesh" using q1 by simp
    then have ne: "cell_index t g1 \<noteq> cell_index t g2" using q2 by auto
    have "goal_meshes s' ! cell_index t g2 = Some goal_mesh"
      using i unfolding gm e by simp
    moreover have "goal_meshes s' ! cell_index t g1 = Some checkpoint_mesh"
      using q1 q2 ne unfolding gm e by simp
    ultimately show ?thesis using Some unfolding cs by simp
  qed
  show ?thesis
    using r a b c p1 [unfolded g1] p2 none create_board_counts(1) [OF assms] cp cells by blast
qed

theorem create_board_checkpoints_witness:
  "create_board (game5 1 (2, 2) [] [] 0 True)
     = Some (Inr (game5 1 (2, 2) open_board
          ((replicate 25 None)[12 := Some goop_mesh, 13 := Some goal_mesh]) 0 True))
   \<and> place_goal (3, 2) (game5 1 (2, 2) open_board
        ((replicate 25 None)[12 := Some goop_mesh, 13 := Some checkpoint_mesh]) 0 True)
     = Some (Inr (None, game5 1 (2, 2) open_board
          ((replicate 25 None)[12 := Some goop_mesh, 13 := Some checkpoint_mesh]) 0 True))
   \<and> count_list ((replicate 25 None)[12 := Some goop_mesh, 13 := Some goal_mesh])
        (Some checkpoint_mesh) = 0
   \<and> create_board (stream_game5 (0 ## 1 ## 0 ## 1 ## 0 ## 0 ## cycle [1, 0]) (2, 1) [] [])
     = Some (Inr (stream_game5 (cycle [1, 0]) (2, 1) open_board
          ((replicate 25 None)[6 := Some checkpoint_mesh, 8 := Some goal_mesh])))
   \<and> place_goal (1, 1) (stream_game5 (cycle [0, 1]) (2, 1) open_board
        ((replicate 25 None)[6 := Some checkpoint_mesh]))
     = Some (Inr (Some (3, 1), stream_game5 (cycle [1, 0]) (2, 1) open_board
          ((replicate 25 None)[6 := Some checkpoint_mesh, 8 := Some checkpoint_mesh])))
   \<and> count_list ((replicate 25 None)[6 := Some checkpoint_mesh, 8 := Some goal_mesh])
        (Some checkpoint_mesh) = 1"
  using create_board_checkpoints [OF create_board_ones [of "[]" "[]" 0 True]]
    create_board_checkpoints [OF create_board_to_and_fro [of "[]" "[]"]]
    create_board_ones [of "[]" "[]" 0 True] create_board_to_and_fro [of "[]" "[]"]
    place_goal_ones_second [of 0 True] place_goal_to_and_fro_second
  by (simp add: replicate_25)

text \<open>
  C6: the loop of line 483 in a run of \<^verbatim>\<open>create_board\<close>. The board has 5 by 5 cells, the
  token is at \<open>(2, 1)\<close>, and \<^verbatim>\<open>mt()\<close> returns 0, 1, 0, 1, 0, 0 and then 1 and 0 in turn. Both
  walls fall on the token and are skipped, and there is no goop. The walks go right to
  \<open>(3, 1)\<close> and left to \<open>(1, 1)\<close> in turn, so these two cells are the possible cells and each
  has the count 1000. The limit starts at \<open>max 1 (2 div 4) = 1\<close> and the loop leaves it there:
  it compares the cell at \<open>limit\<close> with the cell at \<open>limit + 1\<close>, not the last cell within
  the limit with the first one beyond it. So the cell \<open>(3, 1)\<close> stays out although it has the
  count of \<open>(1, 1)\<close>, and the goal is picked among the first cell alone.
\<close>

theorem extend_limit_splits_tie:
  "remove_everything (stream_game5 (0 ## 1 ## 0 ## 1 ## 0 ## 0 ## cycle [1, 0]) (2, 1) [] [])
     = Some (Inr (stream_game5 (0 ## 1 ## 0 ## 1 ## 0 ## 0 ## cycle [1, 0]) (2, 1)
                    open_board (replicate 25 None)))
   \<and> place_walls (stream_game5 (0 ## 1 ## 0 ## 1 ## 0 ## 0 ## cycle [1, 0]) (2, 1)
                    open_board (replicate 25 None))
     = Some (Inr (stream_game5 (0 ## cycle [1, 0]) (2, 1) open_board (replicate 25 None)))
   \<and> place_goops (stream_game5 (0 ## cycle [1, 0]) (2, 1) open_board (replicate 25 None))
     = Some (Inr (stream_game5 (cycle [1, 0]) (2, 1) open_board (replicate 25 None)))
   \<and> random_walks (2, 1) (stream_game5 (cycle [1, 0]) (2, 1) open_board (replicate 25 None))
     = Some (Inr (stream_game5 (cycle [1, 0]) (2, 1) open_board (replicate 25 None),
                  (replicate 25 0)[8 := 1000, 6 := 1000]))
   \<and> find_possible_cells (stream_game5 (cycle [1, 0]) (2, 1) open_board (replicate 25 None))
        ((replicate 25 0)[8 := 1000, 6 := 1000])
     = Some (Inr [(1, 1), (3, 1)])
   \<and> sort_key (count_at (stream_game5 (cycle [1, 0]) (2, 1) open_board (replicate 25 None))
          ((replicate 25 0)[8 := 1000, 6 := 1000])) [(1, 1), (3, 1)]
     = [(1, 1), (3, 1)]
   \<and> extend_limit (stream_game5 (cycle [1, 0]) (2, 1) open_board (replicate 25 None))
        ((replicate 25 0)[8 := 1000, 6 := 1000])
        [(1, 1), (3, 1)] (max 1 (length [(1, 1), (3, 1) :: nat \<times> nat] div 4)) = 1
   \<and> count_at (stream_game5 (cycle [1, 0]) (2, 1) open_board (replicate 25 None))
        ((replicate 25 0)[8 := 1000, 6 := 1000]) ([(1, 1), (3, 1)] ! 1)
     = count_at (stream_game5 (cycle [1, 0]) (2, 1) open_board (replicate 25 None))
        ((replicate 25 0)[8 := 1000, 6 := 1000]) ([(1, 1), (3, 1)] ! 0)
   \<and> pick_goal (stream_game5 (cycle [1, 0]) (2, 1) open_board (replicate 25 None))
        ((replicate 25 0)[8 := 1000, 6 := 1000]) [(1, 1), (3, 1)]
     = Some (Inr ((1, 1), stream_game5 (cycle [0, 1]) (2, 1) open_board (replicate 25 None)))"
proof -
  let ?s = "stream_game5 (cycle [1, 0]) (2, 1) open_board (replicate 25 None)"
  let ?c = "(replicate 25 0)[8 := 1000, 6 := 1000 :: nat]"
  have k: "count_at ?s ?c (1, 1) = 1000" "count_at ?s ?c (3, 1) = 1000"
    by (simp_all add: count_at_def replicate_25)
  have f: "find_possible_cells ?s ?c = Some (Inr [(1, 1), (3, 1)])"
    by (simp add: find_possible_cells_def possible_cell_def upt_5 replicate_25
      at_index_def and_then_def ok_def)
  have e: "extend_limit ?s ?c [(1, 1), (3, 1)] (Suc 0) = Suc 0"
    by (simp add: extend_limit.simps [of _ _ _ "Suc 0"])
  have o: "sort_key (count_at ?s ?c) [(1, 1), (3, 1)] = [(1, 1), (3, 1)]"
    using k by (simp add: insort_key.simps)
  have p: "pick_goal ?s ?c [(1, 1), (3, 1)]
      = Some (Inr ((1, 1), stream_game5 (cycle [0, 1]) (2, 1) open_board (replicate 25 None)))"
    unfolding pick_goal_def o
    by (simp add: Let_def e [unfolded One_nat_def] draw_mod_def draw_def at_index_def
        and_then_def ok_def)
  show ?thesis
    using remove_everything_stream_game5 place_walls_skipped place_goops_none
      random_walks_to_and_fro f o e k p
    by simp
qed

text \<open>
  C7, as the code has it. On the open board of 5 by 5 cells with the token at \<open>(1, 1)\<close> and
  goop on the cell \<open>(3, 1)\<close>, the walks of the stream of ones all come to rest on that
  cell. It is inside the perimeter, visited, not the cell of the token, and holds goop
  only; the list of possible cells is empty all the same.
\<close>

theorem sticky_cell_no_candidate_counterexample:
  "random_walks (1, 1) (game5 1 (1, 1) open_board ((replicate 25 None)[8 := Some goop_mesh]) 0 False)
     = Some (Inr (game5 1 (1, 1) open_board ((replicate 25 None)[8 := Some goop_mesh]) 0 False,
                  (replicate 25 0)[8 := 2000]))
   \<and> find_possible_cells (game5 1 (1, 1) open_board ((replicate 25 None)[8 := Some goop_mesh]) 0 False)
        ((replicate 25 0)[8 := 2000]) = Some (Inr [])
   \<and> cell_index (game5 1 (1, 1) open_board ((replicate 25 None)[8 := Some goop_mesh]) 0 False) (3, 1) = 8
   \<and> inside (game5 1 (1, 1) open_board ((replicate 25 None)[8 := Some goop_mesh]) 0 False) (3, 1)
   \<and> 0 < (replicate 25 (0::nat))[8 := 2000] ! 8
   \<and> (3, 1) \<noteq> player (game5 1 (1, 1) open_board ((replicate 25 None)[8 := Some goop_mesh]) 0 False)
   \<and> (replicate 25 None)[8 := Some goop_mesh] ! 8 = Some goop_mesh"
proof -
  let ?s = "game5 1 (1, 1) open_board ((replicate 25 None)[8 := Some goop_mesh]) 0 False"
  have stay: "walk_slide ?s (1, 0) (3, 1) = Some (Inr (3, 1))"
    by (subst walk_slide.simps) (simp add: float_step_def at_float_index_def ok_def open_board_def)
  have "walk_slide ?s (1, 0) (2, 1) = Some (Inr (3, 1))"
    by (subst walk_slide.simps)
      (simp add: float_step_def at_float_index_def ok_def open_board_def replicate_25)
  then have go: "walk_slide ?s (1, 0) (1, 1) = Some (Inr (3, 1))"
    by (subst walk_slide.simps)
      (simp add: float_step_def at_float_index_def ok_def open_board_def replicate_25)
  have w: "random_walks (1, 1) ?s = Some (Inr (?s, (replicate 25 0)[8 := 2000]))"
    using random_walks_const [of ?s "(1, 1)" "(3, 1)" 8] stay go by (simp add: to_vec2_def)
  have f: "find_possible_cells ?s ((replicate 25 0)[8 := 2000]) = Some (Inr [])"
    by (simp add: find_possible_cells_def possible_cell_def upt_5 replicate_25
      at_index_def and_then_def ok_def)
  show ?thesis using w f by (simp add: inside_def)
qed

text \<open>
  C7, amended. Take a pass of \<^verbatim>\<open>create_board\<close> on a board of fewer than \<open>2^24\<close> cells with
  the token inside the perimeter, and a turn of the loop \<^verbatim>\<open>while (goals < 2)\<close>: the first,
  which starts from the cell of the token in the state that the goops leave, or the
  second, which starts from the cell that the first turn chose. The list of possible
  cells of that turn holds exactly the cells inside the perimeter whose count is
  positive, that are not the cell of the token, and whose entry of \<^verbatim>\<open>goal_meshes\<close> is null;
  it lists them in row order. A cell that holds goop has an entry that is not null, as a
  cell with a checkpoint has, and is never listed.
\<close>

theorem possible_cells_are:
  assumes "exact_board s" "inside s (player s)"
    and "remove_everything s = Some (Inr s1)" "place_walls s1 = Some (Inr s2)"
    and "place_goops s2 = Some (Inr s3)"
    and "(prev_goal, t) = (player s3, s3)
       \<or> place_goal (player s3) s3 = Some (Inr (Some prev_goal, t))"
    and "random_walks prev_goal t = Some (Inr (t1, board_counts))"
    and "find_possible_cells t1 board_counts = Some (Inr possible_cells)"
  shows "set possible_cells = {p. inside t p \<and> 0 < board_counts ! cell_index t p
         \<and> p \<noteq> player t \<and> goal_meshes t ! cell_index t p = None}
     \<and> possible_cells = concat (map (\<lambda>y. map (\<lambda>x. (x, y))
         (filter (\<lambda>x. candidate t board_counts (x, y)) [0 ..< fst (board_size t)]))
         [0 ..< snd (board_size t)])
     \<and> (\<forall>p. is_sticky t p \<longrightarrow> p \<notin> set possible_cells)"
proof -
  note inv = placement_turn [OF assms(1-6)]
  note f = mt_only_fields [OF random_walks_mt(1) [OF assms(7)]]
  have c: "candidate t1 board_counts = candidate t board_counts"
    using f by (simp add: candidate_def fun_eq_iff)
  have e: "possible_cells = concat (map (\<lambda>y. map (\<lambda>x. (x, y))
         (filter (\<lambda>x. candidate t board_counts (x, y)) [0 ..< fst (board_size t)]))
         [0 ..< snd (board_size t)])"
    using possible_rows [OF assms(8) [unfolded find_possible_cells_def]] f(1) c by simp
  have s: "set possible_cells = {p. in_board t p \<and> candidate t board_counts p}"
    unfolding e by (auto simp: in_board_def)
  have "in_board t p \<and> candidate t board_counts p
      \<longleftrightarrow> inside t p \<and> 0 < board_counts ! cell_index t p
         \<and> p \<noteq> player t \<and> goal_meshes t ! cell_index t p = None" for p
    using counts_inside [OF inv(1-4) assms(7), of p] inside_in_board [of t p]
    by (auto simp: candidate_def)
  then have "set possible_cells = {p. inside t p \<and> 0 < board_counts ! cell_index t p
         \<and> p \<noteq> player t \<and> goal_meshes t ! cell_index t p = None}"
    unfolding s by simp
  moreover have "\<forall>p. is_sticky t p \<longrightarrow> p \<notin> set possible_cells"
    using s by (auto simp: candidate_def is_sticky_def)
  ultimately show ?thesis using e by blast
qed

theorem possible_cells_are_witness:
  "exact_board (game5 1 (2, 2) [] [] 0 True)
   \<and> inside (game5 1 (2, 2) [] [] 0 True) (player (game5 1 (2, 2) [] [] 0 True))
   \<and> remove_everything (game5 1 (2, 2) [] [] 0 True)
       = Some (Inr (game5 1 (2, 2) open_board (replicate 25 None) 0 True))
   \<and> place_walls (game5 1 (2, 2) open_board (replicate 25 None) 0 True)
       = Some (Inr (game5 1 (2, 2) open_board (replicate 25 None) 0 True))
   \<and> place_goops (game5 1 (2, 2) open_board (replicate 25 None) 0 True)
       = Some (Inr (game5 1 (2, 2) open_board ((replicate 25 None)[12 := Some goop_mesh]) 0 True))
   \<and> random_walks (2, 2)
        (game5 1 (2, 2) open_board ((replicate 25 None)[12 := Some goop_mesh]) 0 True)
       = Some (Inr (game5 1 (2, 2) open_board ((replicate 25 None)[12 := Some goop_mesh]) 0 True,
                    (replicate 25 0)[13 := 2000]))
   \<and> find_possible_cells
        (game5 1 (2, 2) open_board ((replicate 25 None)[12 := Some goop_mesh]) 0 True)
        ((replicate 25 0)[13 := 2000]) = Some (Inr [(3, 2)])
   \<and> is_sticky (game5 1 (2, 2) open_board ((replicate 25 None)[12 := Some goop_mesh]) 0 True) (2, 2)
   \<and> (2, 2) \<notin> set [(3, 2) :: nat \<times> nat]
   \<and> inside (game5 1 (2, 2) open_board ((replicate 25 None)[12 := Some goop_mesh]) 0 True) (3, 2)
   \<and> place_goal (2, 2)
        (game5 1 (2, 2) open_board ((replicate 25 None)[12 := Some goop_mesh]) 0 True)
       = Some (Inr (Some (3, 2), game5 1 (2, 2) open_board
            ((replicate 25 None)[12 := Some goop_mesh, 13 := Some checkpoint_mesh]) 0 True))
   \<and> random_walks (3, 2) (game5 1 (2, 2) open_board
            ((replicate 25 None)[12 := Some goop_mesh, 13 := Some checkpoint_mesh]) 0 True)
       = Some (Inr (game5 1 (2, 2) open_board
            ((replicate 25 None)[12 := Some goop_mesh, 13 := Some checkpoint_mesh]) 0 True,
                    (replicate 25 0)[13 := 2000]))
   \<and> find_possible_cells (game5 1 (2, 2) open_board
            ((replicate 25 None)[12 := Some goop_mesh, 13 := Some checkpoint_mesh]) 0 True)
        ((replicate 25 0)[13 := 2000]) = Some (Inr [])"
proof -
  let ?s = "game5 1 (2, 2) [] [] 0 True"
  let ?s1 = "game5 1 (2, 2) open_board (replicate 25 None) 0 True"
  let ?s3 = "game5 1 (2, 2) open_board ((replicate 25 None)[12 := Some goop_mesh]) 0 True"
  let ?t = "game5 1 (2, 2) open_board
      ((replicate 25 None)[12 := Some goop_mesh, 13 := Some checkpoint_mesh]) 0 True"
  let ?c = "(replicate 25 0)[13 := 2000 :: nat]"
  have h: "exact_board ?s" "inside ?s (player ?s)"
    by (simp_all add: exact_board_def inside_def)
  have a: "remove_everything ?s = Some (Inr ?s1)" by (rule remove_everything_game5)
  have b: "place_walls ?s1 = Some (Inr ?s1)" by (rule place_walls_ones)
  have c: "place_goops ?s1 = Some (Inr ?s3)" by (rule place_goops_ones)
  have w1: "random_walks (2, 2) ?s3 = Some (Inr (?s3, ?c))"
    by (rule random_walks_ones_go) simp_all
  have f1: "find_possible_cells ?s3 ?c = Some (Inr [(3, 2)])"
    by (rule find_possible_cells_ones_first)
  have p: "place_goal (2, 2) ?s3 = Some (Inr (Some (3, 2), ?t))"
    by (rule place_goal_ones_first)
  have w2: "random_walks (3, 2) ?t = Some (Inr (?t, ?c))" by (rule random_walks_ones_stay)
  have f2: "find_possible_cells ?t ?c = Some (Inr [])" by (rule find_possible_cells_ones_second)
  have first: "((2, 2), ?s3) = (player ?s3, ?s3)
       \<or> place_goal (player ?s3) ?s3 = Some (Inr (Some (2, 2), ?s3))" by simp
  have second: "((3, 2), ?t) = (player ?s3, ?s3)
       \<or> place_goal (player ?s3) ?s3 = Some (Inr (Some (3, 2), ?t))" using p by simp
  have st: "is_sticky ?s3 (2, 2)" by (simp add: is_sticky_def replicate_25)
  note r1 = possible_cells_are [OF h a b c first w1 f1]
  note r2 = possible_cells_are [OF h a b c second w2 f2]
  from r1 st have n: "(2, 2) \<notin> set [(3, 2) :: nat \<times> nat]" by blast
  from r1 have "(3, 2) \<in> {p. inside ?s3 p \<and> 0 < ?c ! cell_index ?s3 p
         \<and> p \<noteq> player ?s3 \<and> goal_meshes ?s3 ! cell_index ?s3 p = None}"
    by (metis list.set_intros(1))
  then have i: "inside ?s3 (3, 2)" by simp
  show ?thesis using h a b c w1 f1 st n i p w2 f2 r2 by simp
qed




text \<open>
  C9. A move adds one to the counter exactly when the token comes to rest on a cell that
  holds a checkpoint, and that cell holds a collected checkpoint afterwards; otherwise
  it leaves the counter and the overlay alone. So the counter plus the number of cells
  that hold a checkpoint is the same before and after a move: a cell is counted once.
  \<^verbatim>\<open>create_board\<close> leaves the counter alone. Of the events, a move key acts as
  \<^verbatim>\<open>move_player\<close>, backspace takes one from the counter unless it is zero, and every other
  event leaves it as it is; a counter that is not negative stays so.
\<close>

theorem checkpoint_counter:
  "(move_player s dx dy = Some (Inr s') \<longrightarrow>
      (if goal_meshes s ! cell_index s (player s') = Some checkpoint_mesh
       then checkpoints s' = checkpoints s + 1
         \<and> goal_meshes s' ! cell_index s (player s') = Some checkpoint_collected_mesh
       else checkpoints s' = checkpoints s \<and> goal_meshes s' = goal_meshes s)
      \<and> checkpoints s' + int (count_list (goal_meshes s') (Some checkpoint_mesh))
          = checkpoints s + int (count_list (goal_meshes s) (Some checkpoint_mesh)))
   \<and> (create_board t = Some (Inr t') \<longrightarrow> checkpoints t' = checkpoints t)
   \<and> (handle_event u evt = Some (Inr (handled, u')) \<and> 0 \<le> checkpoints u \<longrightarrow>
        0 \<le> checkpoints u'
        \<and> (if is_move_key evt then \<exists>ex ey. move_player u ex ey = Some (Inr u')
            else if is_give_up evt then checkpoints u' = max 0 (checkpoints u - 1)
            else checkpoints u' = checkpoints u))"
proof (intro conjI impI)
  assume m: "move_player s dx dy = Some (Inr s')"
  note c = move_player_checkpoints [OF m]
  show "if goal_meshes s ! cell_index s (player s') = Some checkpoint_mesh
       then checkpoints s' = checkpoints s + 1
         \<and> goal_meshes s' ! cell_index s (player s') = Some checkpoint_collected_mesh
       else checkpoints s' = checkpoints s \<and> goal_meshes s' = goal_meshes s"
    using c by auto
  show "checkpoints s' + int (count_list (goal_meshes s') (Some checkpoint_mesh))
          = checkpoints s + int (count_list (goal_meshes s) (Some checkpoint_mesh))"
    by (rule move_player_conserves [OF m])
next
  assume "create_board t = Some (Inr t')"
  from create_board_frame [OF this] show "checkpoints t' = checkpoints t"
    by (simp add: same_frame_def)
next
  assume h: "handle_event u evt = Some (Inr (handled, u')) \<and> 0 \<le> checkpoints u"
  then have e: "handle_event u evt = Some (Inr (handled, u'))" and n: "0 \<le> checkpoints u"
    by simp_all
  have cb: "checkpoints y = checkpoints x" if "create_board x = Some (Inr y)" for x y
    using create_board_frame [OF that] by (simp add: same_frame_def)
  have mv: "0 \<le> checkpoints u'" if "move_player u ex ey = Some (Inr u')" for ex ey
    using move_player_checkpoints(2,3) [OF that] n
    by (cases "goal_meshes u ! cell_index u (player u') = Some checkpoint_mesh") auto
  have r: "if is_move_key evt then \<exists>ex ey. move_player u ex ey = Some (Inr u')
      else if is_give_up evt then checkpoints u' = max 0 (checkpoints u - 1)
      else checkpoints u' = checkpoints u"
    using e n unfolding handle_event_def is_move_key_def is_give_up_def
    by (auto split: if_splits dest!: cb)
  show "0 \<le> checkpoints u'"
    using r n mv by (auto split: if_splits)
  show "if is_move_key evt then \<exists>ex ey. move_player u ex ey = Some (Inr u')
      else if is_give_up evt then checkpoints u' = max 0 (checkpoints u - 1)
      else checkpoints u' = checkpoints u"
    by (rule r)
qed

theorem checkpoint_counter_witness:
  "move_player (game5 1 (2, 2) open_board
        ((replicate 25 None)[12 := Some goop_mesh, 13 := Some checkpoint_mesh]) 0 False) 1 0
     = Some (Inr (game5 1 (3, 2) open_board
        ((replicate 25 None)[12 := Some goop_mesh, 13 := Some checkpoint_collected_mesh]) 1 False))
   \<and> create_board (game5 1 (2, 2) [] [] 2 True)
     = Some (Inr (game5 1 (2, 2) open_board
          ((replicate 25 None)[12 := Some goop_mesh, 13 := Some goal_mesh]) 2 True))
   \<and> handle_event (game5 1 (2, 2) [] [] 3 True)
        \<lparr>is_keydown = True, key_repeat = 0, key_scancode = SDL_SCANCODE_BACKSPACE\<rparr>
     = Some (Inr (True, game5 1 (2, 2) open_board
          ((replicate 25 None)[12 := Some goop_mesh, 13 := Some goal_mesh]) 2 True))
   \<and> (0::int) \<le> 3
   \<and> checkpoints (game5 1 (3, 2) open_board
        ((replicate 25 None)[12 := Some goop_mesh, 13 := Some checkpoint_collected_mesh]) 1 False)
       = checkpoints (game5 1 (2, 2) open_board
        ((replicate 25 None)[12 := Some goop_mesh, 13 := Some checkpoint_mesh]) 0 False) + 1
   \<and> checkpoints (game5 1 (2, 2) open_board
          ((replicate 25 None)[12 := Some goop_mesh, 13 := Some goal_mesh]) 2 True)
       = max 0 (checkpoints (game5 1 (2, 2) [] [] 3 True) - 1)"
proof -
  let ?m = "game5 1 (2, 2) open_board
        ((replicate 25 None)[12 := Some goop_mesh, 13 := Some checkpoint_mesh]) 0 False"
  let ?m' = "game5 1 (3, 2) open_board
        ((replicate 25 None)[12 := Some goop_mesh, 13 := Some checkpoint_collected_mesh]) 1 False"
  let ?t = "game5 1 (2, 2) [] [] 2 True"
  let ?t' = "game5 1 (2, 2) open_board
          ((replicate 25 None)[12 := Some goop_mesh, 13 := Some goal_mesh]) 2 True"
  let ?u = "game5 1 (2, 2) [] [] 3 True"
  let ?e = "\<lparr>is_keydown = True, key_repeat = 0, key_scancode = SDL_SCANCODE_BACKSPACE\<rparr>"
  have h: "handle_event ?u ?e = Some (Inr (True, ?t'))"
    by (simp add: handle_event_def create_board_ones and_then_def ok_def)
  show ?thesis
    using checkpoint_counter [of ?m 1 0 ?m' ?t ?t' ?u ?e True ?t']
      move_player_example create_board_ones [of "[]" "[]" 2 True] h
    by (simp add: is_move_key_def is_give_up_def)
qed

text \<open>
  C10. With the token inside the perimeter (and a board size that does not wrap), the
  cell of the token is floor after \<^verbatim>\<open>create_board\<close>: the walls skip it. Goop does not: the
  generator with the stream of ones puts goop on the cell \<open>(2, 2)\<close> of the token.
\<close>

theorem create_board_token_cell:
  "(small_board s \<and> inside s (player s) \<and> create_board s = Some (Inr s')
      \<longrightarrow> board_meshes s' ! cell_index s' (player s') = Some floor_mesh)
   \<and> (inside (game5 1 (2, 2) [] [] 0 False) (player (game5 1 (2, 2) [] [] 0 False))
      \<and> (\<exists>t'. create_board (game5 1 (2, 2) [] [] 0 False) = Some (Inr t')
            \<and> goal_meshes t' ! cell_index t' (player t') = Some goop_mesh))"
proof (intro conjI impI)
  assume a: "small_board s \<and> inside s (player s) \<and> create_board s = Some (Inr s')"
  then have cb: "create_board s = Some (Inr s')" by simp
  from create_board_result [OF cb] obtain s0 goals prev_goal s1 where
    f: "same_frame s s0" and g: "generate s0 = Some (Inr (goals, prev_goal, s1))"
    and e: "s' = s1\<lparr>goal_meshes := (goal_meshes s1)[cell_index s1 prev_goal := Some goal_mesh]\<rparr>"
    by blast
  note fs = same_frame_simps [OF f]
  note fs' = same_frame_simps [OF create_board_frame [OF cb]]
  have "small_board s0" "inside s0 (player s0)" using a fs by simp_all
  from generate_board(3) [OF g this]
  have "board_meshes s1 ! cell_index s0 (player s0) = Some floor_mesh" .
  then show "board_meshes s' ! cell_index s' (player s') = Some floor_mesh"
    using fs fs' unfolding e by simp
next
  show "inside (game5 1 (2, 2) [] [] 0 False) (player (game5 1 (2, 2) [] [] 0 False))"
    by (simp add: inside_def)
  show "\<exists>t'. create_board (game5 1 (2, 2) [] [] 0 False) = Some (Inr t')
            \<and> goal_meshes t' ! cell_index t' (player t') = Some goop_mesh"
    by (simp add: create_board_ones replicate_25)
qed

theorem create_board_token_cell_witness:
  "small_board (game5 1 (2, 2) [] [] 0 False)
   \<and> inside (game5 1 (2, 2) [] [] 0 False) (2, 2)
   \<and> create_board (game5 1 (2, 2) [] [] 0 False)
       = Some (Inr (game5 1 (2, 2) open_board
            ((replicate 25 None)[12 := Some goop_mesh, 13 := Some goal_mesh]) 0 False))
   \<and> open_board ! 12 = Some floor_mesh"
  using create_board_token_cell [of "game5 1 (2, 2) [] [] 0 False"
      "game5 1 (2, 2) open_board ((replicate 25 None)[12 := Some goop_mesh, 13 := Some goal_mesh]) 0 False"]
    create_board_ones [of "[]" "[]" 0 False]
  by (simp add: small_board_def inside_def)

end
